theory Spec2Isabelle
  imports Complex_Main "HOL-Library.Word" "HOL-Library.Log_Nat"
begin

unbundle bit_operations_syntax

section \<open>Data model of runtime.js\<close>

text \<open>
  JavaScript numbers are modelled as follows. Grid cells, cell coordinates, counters and
  the seed are integers (\<open>int\<close>, \<open>nat\<close>); continuous positions, angles and times are
  \<open>real\<close> (every finite double is a real number; \<open>Math.floor\<close> of a finite double is
  exact). A raise of the source (a property read on \<open>undefined\<close>) is the value
  \<open>Inl TypeError\<close>.
\<close>

datatype js_error = TypeError

fun bind_err :: "js_error + 'a \<Rightarrow> ('a \<Rightarrow> js_error + 'b) \<Rightarrow> js_error + 'b" where
  "bind_err (Inl e) f = Inl e"
| "bind_err (Inr v) f = f v"

text \<open>The grid: \<open>grid[y][x]\<close>, 1 = wall, 0 = floor.\<close>

type_synonym grid_t = "int list list"

record actor =
  xpos :: real
  ypos :: real
  angle :: real
  speed :: real

record player_t = actor +
  vx :: real
  vy :: real

record enemy_t = actor +
  state :: string
  lastSeen :: real

text \<open>
  The injected UI handle: the text content of \<open>title\<close>, \<open>desc\<close>, \<open>keys\<close> and
  \<open>status\<close>, and the \<open>style.display\<close> of \<open>btnStart\<close>, \<open>btnRestart\<close> and \<open>overlay\<close>.
\<close>

record ui_t =
  ui_title :: string
  ui_desc :: string
  ui_keys :: string
  ui_status :: string
  ui_btnStart :: string
  ui_btnRestart :: string
  ui_overlay :: string

record game =
  running :: bool
  paused :: bool
  mapW :: int
  mapH :: int
  seed :: int
  R :: nat
  grid :: grid_t
  player :: player_t
  move :: "real \<times> real"
  keys :: nat
  keyPos :: "(int \<times> int) list"
  exitPos :: "(int \<times> int) option"
  enemy :: enemy_t
  fov :: real
  lastT :: real
  ui :: ui_t

subsection \<open>String(n)\<close>

definition digit_char :: "nat \<Rightarrow> char" where
  "digit_char d = char_of (48 + d)"

function String_nat :: "nat \<Rightarrow> string" where
  "String_nat n = (if n < 10 then [digit_char n] else String_nat (n div 10) @ [digit_char (n mod 10)])"
  by pat_completeness auto
termination
  by (relation "measure (\<lambda>n. n)") auto

definition String_int :: "int \<Rightarrow> string" where
  "String_int i = (if i < 0 then CHR ''-'' # String_nat (nat (- i)) else String_nat (nat i))"

section \<open>Look input\<close>

text \<open>
  \<^verbatim>\<open>addLook(dx) { if (!this.running || this.paused) return; this.player.a += dx * 0.0045; }\<close>
\<close>

definition addLook :: "game \<Rightarrow> real \<Rightarrow> game" where
  "addLook s dx =
     (if \<not> running s \<or> paused s then s
      else s\<lparr>player := (player s)\<lparr>angle := angle (player s) + dx * 0.0045\<rparr>\<rparr>)"

section \<open>Collision queries\<close>

text \<open>
  \<^verbatim>\<open>isWall(x, y)\<close>: the two bounds tests come first, in the source's order; \<open>this.grid[0]\<close>
  is read only after the row test has passed. A read \<open>row[xi]\<close> past the end of a row
  gives \<open>undefined\<close>, which is not \<open>=== 1\<close>.
\<close>

definition row0_length :: "grid_t \<Rightarrow> js_error + int" where
  "row0_length g = (case g of [] \<Rightarrow> Inl TypeError | r # _ \<Rightarrow> Inr (int (length r)))"

definition cell_at :: "grid_t \<Rightarrow> int \<Rightarrow> int \<Rightarrow> js_error + int option" where
  "cell_at g yi xi =
     (if yi < 0 \<or> int (length g) \<le> yi then Inl TypeError
      else let r = g ! nat yi in
        Inr (if 0 \<le> xi \<and> xi < int (length r) then Some (r ! nat xi) else None))"

definition isWall :: "grid_t \<Rightarrow> real \<Rightarrow> real \<Rightarrow> js_error + bool" where
  "isWall g x y =
     (let xi = \<lfloor>x\<rfloor>; yi = \<lfloor>y\<rfloor> in
      if yi < 0 \<or> yi \<ge> int (length g) then Inr True
      else bind_err (row0_length g) (\<lambda>w.
        if xi < 0 \<or> xi \<ge> w then Inr True
        else bind_err (cell_at g yi xi) (\<lambda>c. Inr (c = Some 1))))"

text \<open>
  \<^verbatim>\<open>canStand(nx, ny)\<close>: four probes at radius 0.14, joined by the short-circuit \<open>&&\<close>.
  The offsets are taken in exact arithmetic.
\<close>

definition canStand :: "grid_t \<Rightarrow> real \<Rightarrow> real \<Rightarrow> js_error + bool" where
  "canStand g nx ny =
     (let r = 0.14 in
      bind_err (isWall g (nx + r) ny) (\<lambda>w1. if w1 then Inr False else
      bind_err (isWall g (nx - r) ny) (\<lambda>w2. if w2 then Inr False else
      bind_err (isWall g nx (ny + r)) (\<lambda>w3. if w3 then Inr False else
      bind_err (isWall g nx (ny - r)) (\<lambda>w4. Inr (\<not> w4))))))"

text \<open>
  \<^verbatim>\<open>tryMove(actor, nx, ny)\<close>: the x move is tested at the actor's old y, then the y move
  at the actor's x as it then is.
\<close>

definition tryMove :: "grid_t \<Rightarrow> 'a actor_scheme \<Rightarrow> real \<Rightarrow> real \<Rightarrow> js_error + 'a actor_scheme" where
  "tryMove g a nx ny =
     bind_err (canStand g nx (ypos a)) (\<lambda>okx.
       let a1 = (if okx then a\<lparr>xpos := nx\<rparr> else a) in
       bind_err (canStand g (xpos a1) ny) (\<lambda>oky.
         Inr (if oky then a1\<lparr>ypos := ny\<rparr> else a1)))"

section \<open>Pickups and the win condition\<close>


definition gameOver :: "game \<Rightarrow> game" where
  "gameOver s = s\<lparr>running := False,
             ui := (ui s)\<lparr>ui_title := ''Game Over'',
                          ui_desc := ''Caught... (seed: '' @ String_int (seed s) @ '')'',
                          ui_btnRestart := ''inline-block'',
                          ui_overlay := ''flex''\<rparr>\<rparr>"

definition objective :: "nat \<Rightarrow> string" where
  "objective k = (if k \<ge> 3 then ''Go to EXIT'' else ''Find keys'')"



text \<open>
  The number of columns as \<open>isWall\<close> reads it: the length of row 0 (0 for the empty
  grid the constructor leaves before the first \<open>startNew\<close>).
\<close>

definition grid_width :: "grid_t \<Rightarrow> int" where
  "grid_width g = (case g of [] \<Rightarrow> 0 | r # _ \<Rightarrow> int (length r))"

section \<open>The PRNG (mulberry32)\<close>

text \<open>
  \<^verbatim>\<open>rng(seed)\<close> keeps \<open>t\<close>, a JavaScript number that starts as \<open>seed >>> 0\<close> and grows by
  \<open>0x6D2B79F5\<close> at each call; the bit operations read it modulo \<open>2^32\<close>. The sum is a
  double: \<open>fl\<close> is rounding to the nearest double (ties to even) on the non-negative
  integers, the identity below \<open>2^53\<close>, so \<open>t\<close> is exact for the first 4.9 million calls.
  \<open>Math.imul\<close>, \<open>^\<close>, \<open>|\<close> and the sum inside \<open>x ^= x + ...\<close> are 32-bit
  operations: arithmetic on \<open>32 word\<close>; \<open>>>>\<close> is \<open>drop_bit\<close>.
\<close>

fun bit_length :: "nat \<Rightarrow> nat" where
  "bit_length n = (if n = 0 then 0 else Suc (bit_length (n div 2)))"

declare bit_length.simps [simp del]

definition fl :: "nat \<Rightarrow> nat" where
  "fl n = (if n < 2 ^ 53 then n
           else let e = bit_length n - 53; q = n div 2 ^ e; r = n mod 2 ^ e; h = 2 ^ (e - 1) in
             if r < h \<or> (r = h \<and> even q) then q * 2 ^ e else (q + 1) * 2 ^ e)"

definition fl_int :: "int \<Rightarrow> int" where
  "fl_int i = (if i < 0 then - int (fl (nat (- i))) else int (fl (nat i)))"

definition rng_seed :: "int \<Rightarrow> nat" where
  "rng_seed sd = nat (sd mod 2 ^ 32)"

definition rng_next :: "nat \<Rightarrow> nat \<times> 32 word" where
  "rng_next t =
     (let t' = fl (t + 0x6D2B79F5);
          x0 = (word_of_nat t' :: 32 word);
          x1 = (x0 XOR drop_bit 15 x0) * (x0 OR 1);
          x2 = x1 XOR (x1 + (x1 XOR drop_bit 7 x1) * (x1 OR 61))
      in (t', x2 XOR drop_bit 14 x2))"

text \<open>
  The value of a call \<open>R()\<close> is \<open>u / 4294967296\<close> for the 32-bit output \<open>u\<close>.
  \<open>rand_below u k\<close> is \<open>Math.floor(R() * k)\<close> for an integer \<open>k\<close>: the product is the
  double nearest to \<open>u * k / 2^32\<close>, which is \<open>fl (u * k) / 2^32\<close> (scaling by a power of
  two is exact), and integer division rounds down as \<open>Math.floor\<close> does.
\<close>

definition R_value :: "32 word \<Rightarrow> real" where
  "R_value u = real (unat u) / 4294967296"

definition rand_below :: "32 word \<Rightarrow> int \<Rightarrow> int" where
  "rand_below u k = fl_int (uint u * k) div 2 ^ 32"

text \<open>A call of the session's own generator \<open>this.R()\<close>.\<close>

definition R_call :: "game \<Rightarrow> real \<times> game" where
  "R_call s = (let (t', u) = rng_next (R s) in (R_value u, s\<lparr>R := t'\<rparr>))"

section \<open>Enemy AI\<close>

definition hypot :: "real \<Rightarrow> real \<Rightarrow> real" where
  "hypot a b = sqrt (a * a + b * b)"

definition atan2 :: "real \<Rightarrow> real \<Rightarrow> real" where
  "atan2 y x =
     (if x > 0 then arctan (y / x)
      else if x < 0 \<and> y \<ge> 0 then arctan (y / x) + pi
      else if x < 0 \<and> y < 0 then arctan (y / x) - pi
      else if y > 0 then pi / 2
      else if y < 0 then - (pi / 2)
      else 0)"

definition clamp :: "real \<Rightarrow> real \<Rightarrow> real \<Rightarrow> real" where
  "clamp v a b = max a (min b v)"

text \<open>
  \<^verbatim>\<open>wrapAngle(a)\<close>: two loops, \<open>while (a < -Math.PI) a += Math.PI * 2\<close> and
  \<open>while (a > Math.PI) a -= Math.PI * 2\<close>.
\<close>

function wrap_up :: "real \<Rightarrow> real" where
  "wrap_up a = (if a < - pi then wrap_up (a + pi * 2) else a)"
  by pat_completeness auto
termination
proof (relation "measure (\<lambda>a. nat \<lceil>(- pi - a) / (2 * pi)\<rceil>)")
  show "wf (measure (\<lambda>a. nat \<lceil>(- pi - a) / (2 * pi)\<rceil>))" by simp
next
  fix a :: real
  assume lt: "a < - pi"
  have e: "(- pi - (a + pi * 2)) / (2 * pi) = (- pi - a) / (2 * pi) - 1"
    by (simp add: field_simps)
  have pos: "0 < (- pi - a) / (2 * pi)" using lt by simp
  then have ge1: "1 \<le> \<lceil>(- pi - a) / (2 * pi)\<rceil>" by linarith
  have c: "\<lceil>(- pi - (a + pi * 2)) / (2 * pi)\<rceil> = \<lceil>(- pi - a) / (2 * pi)\<rceil> - 1"
    unfolding e by (rule ceiling_diff_one)
  show "(a + pi * 2, a) \<in> measure (\<lambda>a. nat \<lceil>(- pi - a) / (2 * pi)\<rceil>)"
    unfolding in_measure c using ge1 by linarith
qed

function wrap_down :: "real \<Rightarrow> real" where
  "wrap_down a = (if a > pi then wrap_down (a - pi * 2) else a)"
  by pat_completeness auto
termination
proof (relation "measure (\<lambda>a. nat \<lceil>(a - pi) / (2 * pi)\<rceil>)")
  show "wf (measure (\<lambda>a. nat \<lceil>(a - pi) / (2 * pi)\<rceil>))" by simp
next
  fix a :: real
  assume lt: "pi < a"
  have e: "(a - pi * 2 - pi) / (2 * pi) = (a - pi) / (2 * pi) - 1"
    by (simp add: field_simps)
  have pos: "0 < (a - pi) / (2 * pi)" using lt by simp
  then have ge1: "1 \<le> \<lceil>(a - pi) / (2 * pi)\<rceil>" by linarith
  have c: "\<lceil>(a - pi * 2 - pi) / (2 * pi)\<rceil> = \<lceil>(a - pi) / (2 * pi)\<rceil> - 1"
    unfolding e by (rule ceiling_diff_one)
  show "(a - pi * 2, a) \<in> measure (\<lambda>a. nat \<lceil>(a - pi) / (2 * pi)\<rceil>)"
    unfolding in_measure c using ge1 by linarith
qed

definition wrapAngle :: "real \<Rightarrow> real" where
  "wrapAngle a = wrap_down (wrap_up a)"

text \<open>
  \<^verbatim>\<open>canSeePlayer(maxDist = 12.0)\<close>: the segment from the enemy to the player is sampled at
  \<open>i / steps\<close> for \<open>1 \<le> i < steps\<close>, \<open>steps = Math.ceil(d / 0.15)\<close>; the first sample
  in a wall ends the loop with \<open>false\<close>.
\<close>

function see_loop :: "grid_t \<Rightarrow> real \<Rightarrow> real \<Rightarrow> real \<Rightarrow> real \<Rightarrow> int \<Rightarrow> int \<Rightarrow> js_error + bool" where
  "see_loop g ex ey dx dy steps i =
     (if i < steps then
        (let t = of_int i / of_int steps; x = ex + dx * t; y = ey + dy * t in
         bind_err (isWall g x y) (\<lambda>w. if w then Inr False else see_loop g ex ey dx dy steps (i + 1)))
      else Inr True)"
  by pat_completeness auto
termination
  by (relation "measure (\<lambda>(g, ex, ey, dx, dy, steps, i). nat (steps - i))") auto

definition canSeePlayer :: "game \<Rightarrow> real \<Rightarrow> js_error + bool" where
  "canSeePlayer s maxDist =
     (let dx = xpos (player s) - xpos (enemy s);
          dy = ypos (player s) - ypos (enemy s);
          d = hypot dx dy in
      if d > maxDist then Inr False
      else let steps = \<lceil>d / 0.15\<rceil> in
        see_loop (grid s) (xpos (enemy s)) (ypos (enemy s)) dx dy steps 1)"

text \<open>
  \<^verbatim>\<open>stepEnemy(dt, now)\<close> in the source's three blocks: the state machine
  (\<open>enemy_sense\<close>), the choice of the target angle (\<open>enemy_target\<close>, which draws from
  \<open>this.R\<close> when wandering), and the turn, the move and the collision with the player
  (\<open>enemy_move\<close>).
\<close>

definition enemy_sense :: "game \<Rightarrow> bool \<Rightarrow> real \<Rightarrow> game" where
  "enemy_sense s sees now =
     (if sees then
        s\<lparr>enemy := (enemy s)\<lparr>state := ''chase'', lastSeen := now\<rparr>,
          ui := (ui s)\<lparr>ui_status := ''RUN!''\<rparr>\<rparr>
      else if state (enemy s) = ''chase'' \<and> now - lastSeen (enemy s) > 1.8 then
        s\<lparr>enemy := (enemy s)\<lparr>state := ''wander''\<rparr>,
          ui := (ui s)\<lparr>ui_status := objective (keys s)\<rparr>\<rparr>
      else s)"

definition enemy_target :: "game \<Rightarrow> js_error + real \<times> game" where
  "enemy_target s =
     (if state (enemy s) = ''chase'' then
        Inr (atan2 (ypos (player s) - ypos (enemy s)) (xpos (player s) - xpos (enemy s)), s)
      else
        (let (r1, s1) = R_call s;
             (ta, s2) = (if r1 < 0.02 then (let (r2, s') = R_call s1 in (angle (enemy s) + (r2 - 0.5) * 1.3, s'))
                         else (angle (enemy s), s1));
             fx = xpos (enemy s) + cos ta * 0.35;
             fy = ypos (enemy s) + sin ta * 0.35
         in bind_err (isWall (grid s) fx fy) (\<lambda>w.
              if w then
                (let (r3, s3) = R_call s2; (r4, s4) = R_call s3 in
                 Inr (ta + (if r3 < 0.5 then 1 else - 1) * (0.8 + r4), s4))
              else Inr (ta, s2))))"

definition enemy_move :: "game \<Rightarrow> real \<Rightarrow> real \<Rightarrow> js_error + game" where
  "enemy_move s targetA dt =
     (let da = wrapAngle (targetA - angle (enemy s));
          e1 = (enemy s)\<lparr>angle := angle (enemy s) + da * clamp (dt * 4.0) 0 1\<rparr>;
          spd = (if state e1 = ''chase'' then 2.7 else speed e1);
          nx = xpos e1 + cos (angle e1) * spd * dt;
          ny = ypos e1 + sin (angle e1) * spd * dt
      in bind_err (tryMove (grid s) e1 nx ny) (\<lambda>e2.
           let s1 = s\<lparr>enemy := e2\<rparr>;
               d = hypot (xpos (player s1) - xpos e2) (ypos (player s1) - ypos e2)
           in Inr (if d < 0.35 then gameOver s1 else s1)))"

definition stepEnemy :: "game \<Rightarrow> real \<Rightarrow> real \<Rightarrow> js_error + game" where
  "stepEnemy s dt now =
     bind_err (canSeePlayer s 12.0) (\<lambda>sees.
       let s1 = enemy_sense s sees now in
       bind_err (enemy_target s1) (\<lambda>(targetA, s2). enemy_move s2 targetA dt))"

text \<open>The enemy's state after one update, for stating outcomes on concrete sessions.\<close>

definition enemy_state_after :: "game \<Rightarrow> real \<Rightarrow> real \<Rightarrow> js_error + string" where
  "enemy_state_after s dt now = bind_err (stepEnemy s dt now) (\<lambda>s'. Inr (state (enemy s')))"

section \<open>Raycaster\<close>

text \<open>
  \<^verbatim>\<open>raycast(angle)\<close>. The loop variables are a record; \<open>hit\<close> is the loop's local flag,
  which the source sets and never reads: the returned object has \<open>dist\<close>, \<open>side\<close>,
  \<open>mapX\<close> and \<open>mapY\<close> only. \<open>dx || 1e-9\<close> replaces a zero component by \<open>1e-9\<close>.
\<close>

record ray_state =
  sideDistX :: real
  sideDistY :: real
  mapX :: int
  mapY :: int
  side :: int
  hit :: int

record ray_result =
  res_dist :: real
  res_side :: int
  res_mapX :: int
  res_mapY :: int

definition ray_delta :: "real \<Rightarrow> real" where
  "ray_delta d = \<bar>1 / (if d = 0 then 1 / 10 ^ 9 else d)\<bar>"

definition ray_init :: "game \<Rightarrow> real \<Rightarrow> ray_state" where
  "ray_init s a =
     (let px = xpos (player s); py = ypos (player s);
          dx = cos a; dy = sin a;
          mx = \<lfloor>px\<rfloor>; my = \<lfloor>py\<rfloor>;
          deltaDistX = ray_delta dx; deltaDistY = ray_delta dy
      in \<lparr>sideDistX = (if dx < 0 then (px - of_int mx) * deltaDistX
                        else (of_int mx + 1.0 - px) * deltaDistX),
          sideDistY = (if dy < 0 then (py - of_int my) * deltaDistY
                        else (of_int my + 1.0 - py) * deltaDistY),
          mapX = mx, mapY = my, side = 0, hit = 0\<rparr>)"

definition ray_step :: "real \<Rightarrow> int" where
  "ray_step d = (if d < 0 then - 1 else 1)"

definition dda_advance :: "real \<Rightarrow> real \<Rightarrow> int \<Rightarrow> int \<Rightarrow> ray_state \<Rightarrow> ray_state" where
  "dda_advance deltaDistX deltaDistY stepX stepY st =
     (if sideDistX st < sideDistY st then
        st\<lparr>sideDistX := sideDistX st + deltaDistX, mapX := mapX st + stepX, side := 0\<rparr>
      else
        st\<lparr>sideDistY := sideDistY st + deltaDistY, mapY := mapY st + stepY, side := 1\<rparr>)"

definition ray_blocked :: "grid_t \<Rightarrow> ray_state \<Rightarrow> js_error + bool" where
  "ray_blocked g st =
     (if mapY st < 0 \<or> mapY st \<ge> int (length g) then Inr True
      else bind_err (row0_length g) (\<lambda>w.
        if mapX st < 0 \<or> mapX st \<ge> w then Inr True
        else bind_err (cell_at g (mapY st) (mapX st)) (\<lambda>c. Inr (c = Some 1))))"

function dda_loop :: "grid_t \<Rightarrow> real \<Rightarrow> real \<Rightarrow> int \<Rightarrow> int \<Rightarrow> nat \<Rightarrow> ray_state \<Rightarrow> js_error + ray_state" where
  "dda_loop g ddx ddy sx sy i st =
     (if i < 128 then
        (let st1 = dda_advance ddx ddy sx sy st in
         bind_err (ray_blocked g st1) (\<lambda>b.
           if b then Inr (st1\<lparr>hit := 1\<rparr>)
           else dda_loop g ddx ddy sx sy (Suc i) st1))
      else Inr st)"
  by pat_completeness auto
termination
  by (relation "measure (\<lambda>(g, ddx, ddy, sx, sy, i, st). 128 - i)") auto

definition raycast_march :: "game \<Rightarrow> real \<Rightarrow> js_error + ray_state" where
  "raycast_march s a =
     dda_loop (grid s) (ray_delta (cos a)) (ray_delta (sin a)) (ray_step (cos a)) (ray_step (sin a))
       0 (ray_init s a)"

definition raycast :: "game \<Rightarrow> real \<Rightarrow> js_error + ray_result" where
  "raycast s a =
     bind_err (raycast_march s a) (\<lambda>st.
       let perpWallDist = (if side st = 0 then sideDistX st - ray_delta (cos a)
                           else sideDistY st - ray_delta (sin a))
       in Inr \<lparr>res_dist = perpWallDist, res_side = side st, res_mapX = mapX st, res_mapY = mapY st\<rparr>)"

text \<open>The cell reached after \<open>k\<close> steps of the march when nothing stops it.\<close>

definition ray_cell :: "game \<Rightarrow> real \<Rightarrow> nat \<Rightarrow> ray_state" where
  "ray_cell s a k =
     ((dda_advance (ray_delta (cos a)) (ray_delta (sin a)) (ray_step (cos a)) (ray_step (sin a))) ^^ k)
       (ray_init s a)"

definition ray_result_of :: "real \<Rightarrow> ray_state \<Rightarrow> ray_result" where
  "ray_result_of a st =
     \<lparr>res_dist = (if side st = 0 then sideDistX st - ray_delta (cos a)
                  else sideDistY st - ray_delta (sin a)),
      res_side = side st, res_mapX = mapX st, res_mapY = mapY st\<rparr>"

text \<open>
  The returned object literal \<^verbatim>\<open>{ dist: perpWallDist, side, mapX, mapY }\<close> as the list of
  its properties, in the order of the source; a property that is not in the list reads as
  \<open>undefined\<close>.
\<close>

definition ray_result_props :: "ray_result \<Rightarrow> (string \<times> real) list" where
  "ray_result_props r =
     [(''dist'', res_dist r), (''side'', of_int (res_side r)),
      (''mapX'', of_int (res_mapX r)), (''mapY'', of_int (res_mapY r))]"

section \<open>Maze generator\<close>

text \<open>
  \<^verbatim>\<open>makeMaze(w, h, seed = Date.now())\<close>. The grid is \<open>h\<close> rows of \<open>w\<close> cells, all 1.
  A write \<open>grid[y][x] = v\<close> raises when row \<open>y\<close> does not exist; past the end of a row
  JavaScript extends the row, leaving holes that read as \<open>undefined\<close>: the model pads
  with \<open>undefined_cell\<close>, a value that is neither \<open>=== 1\<close> nor \<open>=== 0\<close>. A negative
  column would set a property that is no element; no write of this program has one
  (the written columns are a stack cell's, a candidate's, the cell between them, and
  \<open>1 + Math.floor(...)\<close>), and the model leaves the rows as they are there.
\<close>

definition new_grid :: "int \<Rightarrow> int \<Rightarrow> grid_t" where
  "new_grid w h = replicate (nat h) (replicate (nat w) 1)"

definition undefined_cell :: int where
  "undefined_cell = - 1"

definition set_cell :: "grid_t \<Rightarrow> int \<Rightarrow> int \<Rightarrow> int \<Rightarrow> js_error + grid_t" where
  "set_cell g yi xi v =
     (if yi < 0 \<or> int (length g) \<le> yi then Inl TypeError
      else let r = g ! nat yi in
        if xi < 0 then Inr g
        else if xi < int (length r) then Inr (g[nat yi := r[nat xi := v]])
        else Inr (g[nat yi := r @ replicate (nat xi - length r) undefined_cell @ [v]]))"

text \<open>
  The candidates of the carve loop, in the order of \<open>dirs\<close>: a neighbour two cells away
  that lies strictly inside the border and is still a wall, with the cell between.
  A candidate is \<open>(nx, ny, wx, wy)\<close>.
\<close>

definition dirs :: "(int \<times> int) list" where
  "dirs = [(0, - 2), (0, 2), (- 2, 0), (2, 0)]"

type_synonym cand = "int \<times> int \<times> int \<times> int"

fun candidates_of :: "int \<Rightarrow> int \<Rightarrow> grid_t \<Rightarrow> int \<times> int \<Rightarrow> (int \<times> int) list \<Rightarrow> js_error + cand list" where
  "candidates_of w h g cur [] = Inr []"
| "candidates_of w h g cur (d # ds) =
     (let nx = fst cur + fst d; ny = snd cur + snd d in
      if nx \<le> 0 \<or> ny \<le> 0 \<or> nx \<ge> w - 1 \<or> ny \<ge> h - 1 then candidates_of w h g cur ds
      else
        (case cell_at g ny nx of
           Inl e \<Rightarrow> Inl e
         | Inr c \<Rightarrow>
             (case candidates_of w h g cur ds of
                Inl e \<Rightarrow> Inl e
              | Inr rest \<Rightarrow>
                  Inr (if c = Some 1
                       then (nx, ny, fst cur + fst d div 2, snd cur + snd d div 2) # rest
                       else rest))))"

definition nth_opt :: "'a list \<Rightarrow> int \<Rightarrow> 'a option" where
  "nth_opt xs k = (if 0 \<le> k \<and> k < int (length xs) then Some (xs ! nat k) else None)"

subsection \<open>Termination of the carve loop\<close>

text \<open>
  Every pass of the loop either pops the stack or turns the picked candidate, a wall
  cell, into floor: the number of wall cells and the stack length decrease
  lexicographically.
\<close>

definition row_walls :: "int list \<Rightarrow> nat" where
  "row_walls r = sum_list (map (\<lambda>c. if c = 1 then 1 else 0) r)"

definition walls :: "grid_t \<Rightarrow> nat" where
  "walls g = sum_list (map row_walls g)"

lemma row_walls_update:
  "j < length r \<Longrightarrow> row_walls (r[j := v]) + (if r ! j = 1 then 1 else 0) = row_walls r + (if v = 1 then 1 else 0)"
proof (induction r arbitrary: j)
  case Nil
  then show ?case by simp
next
  case (Cons a r)
  show ?case
  proof (cases j)
    case 0
    then show ?thesis by (simp add: row_walls_def)
  next
    case (Suc j')
    with Cons.prems have "j' < length r" by simp
    from Cons.IH [OF this] Suc show ?thesis by (simp add: row_walls_def)
  qed
qed

lemma row_walls_extend:
  "row_walls (r @ replicate n undefined_cell @ [v]) = row_walls r + (if v = 1 then 1 else 0)"
  by (induction n) (simp_all add: row_walls_def undefined_cell_def)

lemma walls_update:
  "i < length g \<Longrightarrow> walls (g[i := r]) + row_walls (g ! i) = walls g + row_walls r"
proof (induction g arbitrary: i)
  case Nil
  then show ?case by simp
next
  case (Cons a g)
  show ?case
  proof (cases i)
    case 0
    then show ?thesis by (simp add: walls_def)
  next
    case (Suc i')
    with Cons.prems have "i' < length g" by simp
    from Cons.IH [OF this] Suc show ?thesis by (simp add: walls_def)
  qed
qed

lemma set_cell_walls_le:
  assumes "set_cell g yi xi 0 = Inr g'"
  shows "walls g' \<le> walls g"
proof -
  from assms have row: "0 \<le> yi" "yi < int (length g)"
    by (auto simp: set_cell_def split: if_splits)
  then have i: "nat yi < length g" by simp
  let ?r = "g ! nat yi"
  consider (neg) "xi < 0" | (inr) "0 \<le> xi" "xi < int (length ?r)" | (ext) "int (length ?r) \<le> xi"
    by linarith
  then show ?thesis
  proof cases
    case neg
    with assms row show ?thesis by (simp add: set_cell_def Let_def)
  next
    case inr
    with assms row have g': "g' = g[nat yi := ?r[nat xi := 0]]" by (simp add: set_cell_def Let_def)
    from inr have "nat xi < length ?r" by simp
    from row_walls_update [OF this, of 0] have "row_walls (?r[nat xi := 0]) \<le> row_walls ?r" by simp
    with walls_update [OF i, of "?r[nat xi := 0]"] show ?thesis by (simp add: g')
  next
    case ext
    with assms row have g': "g' = g[nat yi := ?r @ replicate (nat xi - length ?r) undefined_cell @ [0]]"
      by (simp add: set_cell_def Let_def)
    from row_walls_extend [of ?r "nat xi - length ?r" 0]
    have "row_walls (?r @ replicate (nat xi - length ?r) undefined_cell @ [0]) = row_walls ?r" by simp
    with walls_update [OF i, of "?r @ replicate (nat xi - length ?r) undefined_cell @ [0]"]
    show ?thesis by (simp add: g')
  qed
qed

lemma set_cell_walls_less:
  assumes "set_cell g yi xi 0 = Inr g'" and "cell_at g yi xi = Inr (Some 1)"
  shows "walls g' < walls g"
proof -
  from assms(2) have row: "0 \<le> yi" "yi < int (length g)"
    and col: "0 \<le> xi" "xi < int (length (g ! nat yi))" and c: "g ! nat yi ! nat xi = 1"
    by (auto simp: cell_at_def Let_def split: if_splits)
  let ?r = "g ! nat yi"
  from row have i: "nat yi < length g" by simp
  from col have j: "nat xi < length ?r" by simp
  from assms(1) row col have g': "g' = g[nat yi := ?r[nat xi := 0]]" by (simp add: set_cell_def Let_def)
  from row_walls_update [OF j, of 0] c have "row_walls (?r[nat xi := 0]) < row_walls ?r" by simp
  with walls_update [OF i, of "?r[nat xi := 0]"] show ?thesis by (simp add: g')
qed

lemma set_cell_other:
  assumes "set_cell g yi xi v = Inr g'" and "(yj, xj) \<noteq> (yi, xi)" and "cell_at g yj xj = Inr (Some c)"
  shows "cell_at g' yj xj = Inr (Some c)"
proof -
  from assms(1) have row: "0 \<le> yi" "yi < int (length g)"
    by (auto simp: set_cell_def split: if_splits)
  from assms(3) have rowj: "0 \<le> yj" "yj < int (length g)"
    and colj: "0 \<le> xj" "xj < int (length (g ! nat yj))" and c: "g ! nat yj ! nat xj = c"
    by (auto simp: cell_at_def Let_def split: if_splits)
  let ?r = "g ! nat yi"
  consider (neg) "xi < 0" | (inr) "0 \<le> xi" "xi < int (length ?r)" | (ext) "int (length ?r) \<le> xi"
    by linarith
  then show ?thesis
  proof cases
    case neg
    with assms row show ?thesis by (simp add: set_cell_def Let_def)
  next
    case inr
    with assms(1) row have g': "g' = g[nat yi := ?r[nat xi := v]]" by (simp add: set_cell_def Let_def)
    show ?thesis
    proof (cases "yj = yi")
      case True
      with assms(2) have "xj \<noteq> xi" by simp
      with True row colj inr c show ?thesis
        by (simp add: g' cell_at_def Let_def nat_eq_iff)
    next
      case False
      with row rowj colj c show ?thesis
        by (simp add: g' cell_at_def Let_def nat_eq_iff)
    qed
  next
    case ext
    with assms(1) row have g': "g' = g[nat yi := ?r @ replicate (nat xi - length ?r) undefined_cell @ [v]]"
      by (simp add: set_cell_def Let_def)
    from colj have jlen: "nat xj < length (g ! nat yj)" by simp
    show ?thesis
    proof (cases "yj = yi")
      case True
      with row colj c jlen show ?thesis
        by (simp add: g' cell_at_def Let_def nth_append)
    next
      case False
      with row rowj colj c show ?thesis
        by (simp add: g' cell_at_def Let_def nat_eq_iff)
    qed
  qed
qed

lemma candidates_of_sound:
  "candidates_of w h g cur ds = Inr cs \<Longrightarrow> (nx, ny, wx, wy) \<in> set cs \<Longrightarrow>
     cell_at g ny nx = Inr (Some 1) \<and> 0 < nx \<and> nx < w - 1 \<and> 0 < ny \<and> ny < h - 1
     \<and> (\<exists>d \<in> set ds. nx = fst cur + fst d \<and> ny = snd cur + snd d
            \<and> wx = fst cur + fst d div 2 \<and> wy = snd cur + snd d div 2)"
proof (induction ds arbitrary: cs)
  case Nil
  then show ?case by simp
next
  case (Cons d ds)
  show ?case
  proof (cases "fst cur + fst d \<le> 0 \<or> snd cur + snd d \<le> 0 \<or> fst cur + fst d \<ge> w - 1 \<or> snd cur + snd d \<ge> h - 1")
    case True
    with Cons.prems(1) have "candidates_of w h g cur ds = Inr cs" by (simp add: Let_def)
    from Cons.IH [OF this Cons.prems(2)] show ?thesis by auto
  next
    case False
    with Cons.prems(1) obtain c rest where c: "cell_at g (snd cur + snd d) (fst cur + fst d) = Inr c"
      and rest: "candidates_of w h g cur ds = Inr rest"
      and cs: "cs = (if c = Some 1
                       then (fst cur + fst d, snd cur + snd d, fst cur + fst d div 2, snd cur + snd d div 2) # rest
                       else rest)"
      by (auto simp: Let_def split: sum.splits)
    show ?thesis
    proof (cases "(nx, ny, wx, wy) \<in> set rest")
      case True
      from Cons.IH [OF rest True] show ?thesis by auto
    next
      case notin: False
      with cs Cons.prems(2) have "c = Some 1"
        and "(nx, ny, wx, wy) = (fst cur + fst d, snd cur + snd d, fst cur + fst d div 2, snd cur + snd d div 2)"
        by (auto split: if_splits)
      with c False show ?thesis by auto
    qed
  qed
qed

lemma candidates_of_pick:
  assumes "candidates_of w h g cur dirs = Inr cs" and "nth_opt cs k = Some (nx, ny, wx, wy)"
  shows "cell_at g ny nx = Inr (Some 1) \<and> 0 < nx \<and> nx < w - 1 \<and> 0 < ny \<and> ny < h - 1
     \<and> (\<exists>d \<in> set dirs. nx = fst cur + fst d \<and> ny = snd cur + snd d
            \<and> wx = fst cur + fst d div 2 \<and> wy = snd cur + snd d div 2)"
proof -
  from assms(2) have "nat k < length cs" and "cs ! nat k = (nx, ny, wx, wy)"
    by (auto simp: nth_opt_def split: if_splits)
  then have "(nx, ny, wx, wy) \<in> set cs" using nth_mem by fastforce
  from candidates_of_sound [OF assms(1) this] show ?thesis .
qed

text \<open>
  One pass of \<open>while (stack.length)\<close> for the top \<open>cur\<close> of the stack: no candidate
  (\<open>None\<close>: the loop pops), or the pick \<open>candidates[Math.floor(R() * candidates.length)]\<close>,
  the two cells carved and the cell to push. The stack is a list with its top first.
\<close>

definition carve_pick ::
  "int \<Rightarrow> int \<Rightarrow> nat \<Rightarrow> grid_t \<Rightarrow> int \<times> int \<Rightarrow> js_error + (nat \<times> grid_t \<times> (int \<times> int)) option" where
  "carve_pick w h t g cur =
     (case candidates_of w h g cur dirs of
        Inl e \<Rightarrow> Inl e
      | Inr cands \<Rightarrow>
          if cands = [] then Inr None
          else
            (case rng_next t of
               (t', u) \<Rightarrow>
                 (case nth_opt cands (rand_below u (int (length cands))) of
                    None \<Rightarrow> Inl TypeError
                  | Some (nx, ny, wx, wy) \<Rightarrow>
                      (case set_cell g wy wx 0 of
                         Inl e \<Rightarrow> Inl e
                       | Inr g1 \<Rightarrow>
                           (case set_cell g1 ny nx 0 of
                              Inl e \<Rightarrow> Inl e
                            | Inr g2 \<Rightarrow> Inr (Some (t', g2, (nx, ny))))))))"

lemma carve_pick_SomeD:
  assumes "carve_pick w h t g cur = Inr (Some (t', g2, n))"
  shows "\<exists>cs u nx ny wx wy g1.
           candidates_of w h g cur dirs = Inr cs \<and> rng_next t = (t', u)
           \<and> nth_opt cs (rand_below u (int (length cs))) = Some (nx, ny, wx, wy)
           \<and> n = (nx, ny) \<and> set_cell g wy wx 0 = Inr g1 \<and> set_cell g1 ny nx 0 = Inr g2"
  using assms unfolding carve_pick_def
  by (auto split: sum.splits if_splits prod.splits option.splits)

lemma carve_pick_walls:
  assumes "carve_pick w h t g cur = Inr (Some (t', g2, n))"
  shows "walls g2 < walls g"
proof -
  from carve_pick_SomeD [OF assms] obtain cs u nx ny wx wy g1 where
    cs: "candidates_of w h g cur dirs = Inr cs"
    and pick: "nth_opt cs (rand_below u (int (length cs))) = Some (nx, ny, wx, wy)"
    and g1: "set_cell g wy wx 0 = Inr g1" and g2: "set_cell g1 ny nx 0 = Inr g2"
    by blast
  from candidates_of_pick [OF cs pick] obtain d where c1: "cell_at g ny nx = Inr (Some 1)"
    and d: "d \<in> set dirs" "nx = fst cur + fst d" "ny = snd cur + snd d"
      "wx = fst cur + fst d div 2" "wy = snd cur + snd d div 2"
    by blast
  from d have ne: "(ny, nx) \<noteq> (wy, wx)" by (auto simp: dirs_def)
  from set_cell_other [OF g1 ne c1] have "cell_at g1 ny nx = Inr (Some 1)" .
  from set_cell_walls_less [OF g2 this] set_cell_walls_le [OF g1] show ?thesis by simp
qed

function carve :: "int \<Rightarrow> int \<Rightarrow> nat \<Rightarrow> grid_t \<Rightarrow> (int \<times> int) list \<Rightarrow> js_error + grid_t \<times> nat" where
  "carve w h t g [] = Inr (g, t)"
| "carve w h t g (cur # stack) =
     (case carve_pick w h t g cur of
        Inl e \<Rightarrow> Inl e
      | Inr None \<Rightarrow> carve w h t g stack
      | Inr (Some (t', g2, n)) \<Rightarrow> carve w h t' g2 (n # cur # stack))"
  by pat_completeness auto
termination
proof (relation "measures [\<lambda>(w, h, t, g, st). walls g, \<lambda>(w, h, t, g, st). length st]")
  show "wf (measures [\<lambda>(w, h, t, g, st). walls g, \<lambda>(w, h, t, g, st). length st])" by simp
next
  fix w h :: int and t :: nat and g :: grid_t and cur :: "int \<times> int" and stack :: "(int \<times> int) list"
  show "((w, h, t, g, stack), (w, h, t, g, cur # stack))
        \<in> measures [\<lambda>(w, h, t, g, st). walls g, \<lambda>(w, h, t, g, st). length st]"
    by simp
next
  fix w h :: int and t :: nat and g :: grid_t and cur :: "int \<times> int" and stack :: "(int \<times> int) list"
    and x2 x2a t' y g2 n
  assume "carve_pick w h t g cur = Inr x2" "x2 = Some x2a" "(t', y) = x2a" "(g2, n) = y"
  then have "carve_pick w h t g cur = Inr (Some (t', g2, n))" by simp
  from carve_pick_walls [OF this]
  show "((w, h, t', g2, n # cur # stack), (w, h, t, g, cur # stack))
        \<in> measures [\<lambda>(w, h, t, g, st). walls g, \<lambda>(w, h, t, g, st). length st]"
    by simp
qed

text \<open>
  The loop-injection pass. \<open>for (let i = 0; i < (w * h) * 0.02; i++)\<close> runs
  \<open>loop_count w h\<close> times: \<open>0.02\<close> is the double \<open>5764607523034235 / 2^58\<close>, the products
  are rounded as doubles are, and the number of \<open>i \<ge> 0\<close> below the bound is its ceiling.
  \<open>is0\<close> is the summand \<open>(grid[..][..] === 0)\<close>.
\<close>

definition is0 :: "int option \<Rightarrow> nat" where
  "is0 c = (if c = Some 0 then 1 else 0)"

fun loop_pass :: "nat \<Rightarrow> int \<Rightarrow> int \<Rightarrow> nat \<Rightarrow> grid_t \<Rightarrow> js_error + grid_t \<times> nat" where
  "loop_pass 0 w h t g = Inr (g, t)"
| "loop_pass (Suc n) w h t g =
     (case rng_next t of
        (t1, u1) \<Rightarrow>
          (case rng_next t1 of
             (t2, u2) \<Rightarrow>
               (let x = 1 + rand_below u1 (w - 2); y = 1 + rand_below u2 (h - 2) in
                case cell_at g y x of
                  Inl e \<Rightarrow> Inl e
                | Inr c \<Rightarrow>
                    if c = Some 1 then
                      (case cell_at g (y - 1) x of Inl e \<Rightarrow> Inl e | Inr up \<Rightarrow>
                       case cell_at g (y + 1) x of Inl e \<Rightarrow> Inl e | Inr down \<Rightarrow>
                       case cell_at g y (x - 1) of Inl e \<Rightarrow> Inl e | Inr left \<Rightarrow>
                       case cell_at g y (x + 1) of Inl e \<Rightarrow> Inl e | Inr right \<Rightarrow>
                         if is0 up + is0 down + is0 left + is0 right \<ge> 2 then
                           (case set_cell g y x 0 of
                              Inl e \<Rightarrow> Inl e
                            | Inr g' \<Rightarrow> loop_pass n w h t2 g')
                         else loop_pass n w h t2 g)
                    else loop_pass n w h t2 g)))"

definition loop_count :: "int \<Rightarrow> int \<Rightarrow> nat" where
  "loop_count w h =
     (let p = fl_int (w * h) in
      if p \<le> 0 then 0
      else nat ((fl_int (p * 5764607523034235) + 2 ^ 58 - 1) div 2 ^ 58))"

definition makeMaze :: "int \<Rightarrow> int \<Rightarrow> int \<Rightarrow> js_error + grid_t \<times> int" where
  "makeMaze w h sd =
     (case set_cell (new_grid w h) 1 1 0 of
        Inl e \<Rightarrow> Inl e
      | Inr g1 \<Rightarrow>
          (case carve w h (rng_seed sd) g1 [(1, 1)] of
             Inl e \<Rightarrow> Inl e
           | Inr (g2, t) \<Rightarrow>
               (case loop_pass (loop_count w h) w h t g2 of
                  Inl e \<Rightarrow> Inl e
                | Inr (g3, t') \<Rightarrow> Inr (g3, sd))))"

text \<open>
  A call as a caller makes it: an omitted seed takes the default \<open>Date.now()\<close>, the
  clock of the run.
\<close>

definition makeMaze_call :: "int \<Rightarrow> int \<Rightarrow> int \<Rightarrow> int option \<Rightarrow> js_error + grid_t \<times> int" where
  "makeMaze_call clock w h sd = makeMaze w h (case sd of None \<Rightarrow> clock | Some v \<Rightarrow> v)"


subsection \<open>Floor connectivity\<close>

text \<open>
  Cells are \<open>(x, y)\<close>. A floor cell is an existing cell holding 0; two cells are
  adjacent when they differ by one step along one axis; \<open>reach g\<close> is reachability
  through 4-neighbour steps between floor cells.
\<close>

definition is_floor :: "grid_t \<Rightarrow> int \<times> int \<Rightarrow> bool" where
  "is_floor g p = (cell_at g (snd p) (fst p) = Inr (Some 0))"

definition adjacent :: "int \<times> int \<Rightarrow> int \<times> int \<Rightarrow> bool" where
  "adjacent p q = (\<bar>fst p - fst q\<bar> + \<bar>snd p - snd q\<bar> = 1)"

definition floor_step :: "grid_t \<Rightarrow> int \<times> int \<Rightarrow> int \<times> int \<Rightarrow> bool" where
  "floor_step g p q = (is_floor g p \<and> is_floor g q \<and> adjacent p q)"

definition reach :: "grid_t \<Rightarrow> int \<times> int \<Rightarrow> int \<times> int \<Rightarrow> bool" where
  "reach g = (floor_step g)\<^sup>*\<^sup>*"

definition dims :: "int \<Rightarrow> int \<Rightarrow> grid_t \<Rightarrow> bool" where
  "dims w h g = (int (length g) = h \<and> (\<forall>i < length g. int (length (g ! i)) = w))"

definition interior :: "int \<Rightarrow> int \<Rightarrow> int \<times> int \<Rightarrow> bool" where
  "interior w h p = (0 < fst p \<and> fst p < w - 1 \<and> 0 < snd p \<and> snd p < h - 1)"

section \<open>Entity placement\<close>

text \<open>
  \<^verbatim>\<open>findRandomFloor(grid, R)\<close>: up to 10000 tries, each drawing \<open>x\<close> and then \<open>y\<close> from
  the generator \<open>R\<close>, whose state is threaded through (the result carries the state after
  the last draw); all tries spent, the cell (1, 1). \<open>grid[0].length\<close> raises on the empty
  grid, \<open>grid[y][x]\<close> on a missing row.
\<close>

function findRandomFloor_loop ::
  "grid_t \<Rightarrow> int \<Rightarrow> int \<Rightarrow> nat \<Rightarrow> nat \<Rightarrow> js_error + (int \<times> int) \<times> nat" where
  "findRandomFloor_loop g w h tries t =
     (if tries < 10000 then
        (case rng_next t of
           (t1, u1) \<Rightarrow>
             (case rng_next t1 of
                (t2, u2) \<Rightarrow>
                  (let x = 1 + rand_below u1 (w - 2); y = 1 + rand_below u2 (h - 2) in
                   case cell_at g y x of
                     Inl e \<Rightarrow> Inl e
                   | Inr c \<Rightarrow>
                       if c = Some 0 then Inr ((x, y), t2)
                       else findRandomFloor_loop g w h (Suc tries) t2)))
      else Inr ((1, 1), t))"
  by pat_completeness auto
termination
  by (relation "measure (\<lambda>(g, w, h, tries, t). 10000 - tries)") auto

definition findRandomFloor :: "grid_t \<Rightarrow> nat \<Rightarrow> js_error + (int \<times> int) \<times> nat" where
  "findRandomFloor g t =
     (case row0_length g of
        Inl e \<Rightarrow> Inl e
      | Inr w \<Rightarrow> findRandomFloor_loop g w (int (length g)) 0 t)"

text \<open>
  \<^verbatim>\<open>dist(a, b)\<close> is \<open>Math.hypot(a.x - b.x, a.y - b.y)\<close>. In \<open>startNew\<close> its arguments
  are a cell centre \<open>(x + 0.5, y + 0.5)\<close> and the player, who stands on a cell centre:
  the differences are integers, so the comparisons with 8, 10 and 6 come out in doubles
  as they do in exact arithmetic.
\<close>

definition dist_xy :: "real \<times> real \<Rightarrow> real \<times> real \<Rightarrow> real" where
  "dist_xy a b = hypot (fst a - fst b) (snd a - snd b)"

definition cell_centre :: "int \<times> int \<Rightarrow> real \<times> real" where
  "cell_centre c = (of_int (fst c) + 0.5, of_int (snd c) + 0.5)"

definition player_pos :: "game \<Rightarrow> real \<times> real" where
  "player_pos s = (xpos (player s), ypos (player s))"

definition same_cell :: "int \<times> int \<Rightarrow> (int \<times> int) list \<Rightarrow> bool" where
  "same_cell c ks = list_ex (\<lambda>k. fst k = fst c \<and> snd k = snd c) ks"

text \<open>
  The loops of \<open>startNew\<close> that place the keys and the exit,
  \<^verbatim>\<open>while (this.keyPos.length < 3)\<close> and \<^verbatim>\<open>while (true)\<close>, have no counter: a pass that
  rejects its sample only advances the generator. They are partial functions, \<open>None\<close>
  standing for a loop that never ends.
\<close>

partial_function (option) place_keys :: "game \<Rightarrow> (js_error + game) option" where
  "place_keys s =
     (if length (keyPos s) < 3 then
        (case findRandomFloor (grid s) (R s) of
           Inl e \<Rightarrow> Some (Inl e)
         | Inr (k, t) \<Rightarrow>
             if dist_xy (cell_centre k) (player_pos s) < 8 then place_keys (s\<lparr>R := t\<rparr>)
             else if same_cell k (keyPos s) then place_keys (s\<lparr>R := t\<rparr>)
             else place_keys (s\<lparr>R := t, keyPos := keyPos s @ [k]\<rparr>))
      else Some (Inr s))"

partial_function (option) place_exit :: "game \<Rightarrow> (js_error + game) option" where
  "place_exit s =
     (case findRandomFloor (grid s) (R s) of
        Inl e \<Rightarrow> Some (Inl e)
      | Inr (e, t) \<Rightarrow>
          if dist_xy (cell_centre e) (player_pos s) < 10 then place_exit (s\<lparr>R := t\<rparr>)
          else if same_cell e (keyPos s) then place_exit (s\<lparr>R := t\<rparr>)
          else Some (Inr (s\<lparr>R := t, exitPos := Some e\<rparr>)))"

text \<open>
  The enemy loop has a counter: at most 8000 samples, accepted when the distance to the
  player lies in \<open>[6, 10]\<close>; with none accepted, \<open>findRandomFloor\<close> is called once more.
\<close>

function place_enemy_loop :: "grid_t \<Rightarrow> real \<times> real \<Rightarrow> nat \<Rightarrow> nat \<Rightarrow> js_error + (int \<times> int) option \<times> nat" where
  "place_enemy_loop g pp tries t =
     (if tries < 8000 then
        (case findRandomFloor g t of
           Inl e \<Rightarrow> Inl e
         | Inr (cand, t') \<Rightarrow>
             (let d = dist_xy (cell_centre cand) pp in
              if d < 6 \<or> d > 10 then place_enemy_loop g pp (Suc tries) t'
              else Inr (Some cand, t')))
      else Inr (None, t))"
  by pat_completeness auto
termination
  by (relation "measure (\<lambda>(g, pp, tries, t). 8000 - tries)") auto

definition place_player :: "game \<Rightarrow> js_error + game" where
  "place_player s =
     (case findRandomFloor (grid s) (R s) of
        Inl e \<Rightarrow> Inl e
      | Inr (p, t) \<Rightarrow>
          (case rng_next t of
             (t', u) \<Rightarrow>
               Inr (s\<lparr>R := t',
                      player := (player s)\<lparr>xpos := of_int (fst p) + 0.5,
                                           ypos := of_int (snd p) + 0.5,
                                           angle := R_value u * pi * 2\<rparr>\<rparr>)))"

definition place_enemy :: "game \<Rightarrow> js_error + game" where
  "place_enemy s =
     (case place_enemy_loop (grid s) (player_pos s) 0 (R s) of
        Inl e \<Rightarrow> Inl e
      | Inr (en, t) \<Rightarrow>
          (case (case en of Some c \<Rightarrow> Inr (c, t) | None \<Rightarrow> findRandomFloor (grid s) t) of
             Inl e \<Rightarrow> Inl e
           | Inr (c, t1) \<Rightarrow>
               (case rng_next t1 of
                  (t2, u) \<Rightarrow>
                    Inr (s\<lparr>R := t2,
                           enemy := (enemy s)\<lparr>xpos := of_int (fst c) + 0.5,
                                              ypos := of_int (snd c) + 0.5,
                                              state := ''wander'',
                                              angle := R_value u * pi * 2,
                                              lastSeen := 0\<rparr>\<rparr>))))"

text \<open>
  The placement phase of \<open>startNew\<close> (player, keys, exit, enemy, in this order), and
  \<^verbatim>\<open>startNew()\<close> itself: \<open>clock\<close> is the value of \<open>Date.now()\<close> and \<open>pnow\<close> that of
  \<open>performance.now()\<close>; the generator of the session is seeded with the seed that
  \<open>makeMaze\<close> returns.
\<close>

definition place_entities :: "game \<Rightarrow> (js_error + game) option" where
  "place_entities s =
     (case place_player s of
        Inl e \<Rightarrow> Some (Inl e)
      | Inr s1 \<Rightarrow>
          (case place_keys (s1\<lparr>keys := 0, keyPos := []\<rparr>) of
             None \<Rightarrow> None
           | Some (Inl e) \<Rightarrow> Some (Inl e)
           | Some (Inr s2) \<Rightarrow>
               (case place_exit s2 of
                  None \<Rightarrow> None
                | Some (Inl e) \<Rightarrow> Some (Inl e)
                | Some (Inr s3) \<Rightarrow> Some (place_enemy s3))))"

definition startNew :: "game \<Rightarrow> int \<Rightarrow> real \<Rightarrow> (js_error + game) option" where
  "startNew s clock pnow =
     (let s0 = s\<lparr>running := True, paused := False\<rparr> in
      case makeMaze (mapW s0) (mapH s0) clock of
        Inl e \<Rightarrow> Some (Inl e)
      | Inr (g, sd) \<Rightarrow>
          (case place_entities (s0\<lparr>grid := g, seed := sd, R := rng_seed sd\<rparr>) of
             None \<Rightarrow> None
           | Some (Inl e) \<Rightarrow> Some (Inl e)
           | Some (Inr s4) \<Rightarrow>
               Some (Inr (s4\<lparr>ui := (ui s4)\<lparr>ui_keys := String_nat (keys s4),
                                            ui_status := ''Find keys'',
                                            ui_btnStart := ''none'',
                                            ui_btnRestart := ''none''\<rparr>,
                              lastT := pnow\<rparr>))))"

text \<open>
  \<open>rng_skip n t\<close> is the generator state after \<open>n\<close> draws from state \<open>t\<close>.
  \<open>far_keys\<close> and \<open>far_exit\<close> are the invariants of the key loop and the exit loop.
  \<open>corr h n g\<close> describes a grid of width 3 whose floor is the column \<open>x = 1\<close> from row 1
  to row \<open>n\<close>, all other cells being walls.
\<close>

definition rng_skip :: "nat \<Rightarrow> nat \<Rightarrow> nat" where
  "rng_skip n t = ((\<lambda>v. fst (rng_next v)) ^^ n) t"

definition far_keys :: "game \<Rightarrow> bool" where
  "far_keys s = (distinct (keyPos s)
     \<and> list_all (\<lambda>k. dist_xy (cell_centre k) (player_pos s) \<ge> 8) (keyPos s))"

definition far_exit :: "game \<Rightarrow> bool" where
  "far_exit s = (case exitPos s of
      None \<Rightarrow> False
    | Some e \<Rightarrow> dist_xy (cell_centre e) (player_pos s) \<ge> 10 \<and> e \<notin> set (keyPos s))"

definition corr :: "int \<Rightarrow> int \<Rightarrow> grid_t \<Rightarrow> bool" where
  "corr h n g = (dims 3 h g \<and> (\<forall>x y. 0 \<le> y \<and> y < h \<and> 0 \<le> x \<and> x < 3 \<longrightarrow>
      cell_at g y x = Inr (Some (if x = 1 \<and> 1 \<le> y \<and> y \<le> n then 0 else 1))))"

section \<open>Concrete inputs\<close>

definition room3 :: grid_t where
  "room3 = [[1,1,1,1],[1,0,0,1],[1,1,1,1]]"

definition demo_actor :: actor where
  "demo_actor = \<lparr>xpos = 1.5, ypos = 1.5, angle = 0, speed = 1\<rparr>"

definition demo_game :: "nat \<Rightarrow> (int \<times> int) list \<Rightarrow> game" where
  "demo_game k ks =
     \<lparr>running = True, paused = False, mapW = 31, mapH = 31, seed = 7, R = 7, grid = [],
      player = \<lparr>xpos = 3.5, ypos = 5.5, angle = 0, speed = 3.4, vx = 0, vy = 0\<rparr>,
      move = (0, 0), keys = k, keyPos = ks, exitPos = Some (3, 5),
      enemy = \<lparr>xpos = 2.5, ypos = 2.5, angle = 0, speed = 1.7, state = ''wander'', lastSeen = 0\<rparr>,
      fov = pi / 3, lastT = 0,
      ui = \<lparr>ui_title = [], ui_desc = [], ui_keys = ''0'', ui_status = ''Find keys'',
            ui_btnStart = ''none'', ui_btnRestart = ''none'', ui_overlay = ''none''\<rparr>\<rparr>"

definition hall :: grid_t where
  "hall = [[1,1,1,1,1,1],[1,0,0,0,0,1],[1,1,1,1,1,1]]"

definition blocked_hall :: grid_t where
  "blocked_hall = [[1,1,1,1,1,1],[1,0,1,0,0,1],[1,1,1,1,1,1]]"

definition enemy_game :: "grid_t \<Rightarrow> string \<Rightarrow> game" where
  "enemy_game g st = (demo_game 0 [])\<lparr>grid := g,
      player := \<lparr>xpos = 4.5, ypos = 1.5, angle = 0, speed = 3.4, vx = 0, vy = 0\<rparr>,
      enemy := \<lparr>xpos = 1.5, ypos = 1.5, angle = 0, speed = 1.7, state = st, lastSeen = 0\<rparr>\<rparr>"

definition ray_game :: game where
  "ray_game = (demo_game 0 [])\<lparr>grid := [[1,1,1],[1,0,1],[1,1,1]],
      player := \<lparr>xpos = 1.5, ypos = 1.5, angle = 0, speed = 3.4, vx = 0, vy = 0\<rparr>\<rparr>"

definition hall_game :: game where
  "hall_game = ray_game\<lparr>grid := hall\<rparr>"

definition long_hall :: grid_t where
  "long_hall = [replicate 131 1, 1 # replicate 129 0 @ [1], replicate 131 1]"

definition long_game :: game where
  "long_game = ray_game\<lparr>grid := long_hall\<rparr>"

definition small_game :: game where
  "small_game = (demo_game 0 [])\<lparr>mapW := 5, mapH := 5\<rparr>"

definition walled_game :: game where
  "walled_game = (demo_game 0 [])\<lparr>grid := new_grid 31 31\<rparr>"

definition arena :: grid_t where
  "arena = replicate 15 1 # replicate 13 (1 # replicate 13 0 @ [1]) @ [replicate 15 1]"

definition arena_game :: game where
  "arena_game = (demo_game 0 [])\<lparr>grid := arena, R := 131\<rparr>"

definition corridor_game :: game where
  "corridor_game = (demo_game 0 [])\<lparr>mapW := 3\<rparr>"

section \<open>Properties\<close>

lemma isWall_no_error: "\<exists>b. isWall g x y = Inr b"
  by (cases g) (auto simp: isWall_def Let_def row0_length_def cell_at_def)

subsection \<open>Out-of-grid queries\<close>

text \<open>
  C9. A coordinate pair whose cell \<open>(\<lfloor>x\<rfloor>, \<lfloor>y\<rfloor>)\<close> lies outside the grid (row index
  negative or past the last row, column index negative or past the last column; every
  cell when the grid is still empty) makes \<open>isWall\<close> return \<open>true\<close>, and the call
  never raises: the result is \<open>Inr True\<close>, not \<open>Inl TypeError\<close>.
\<close>

theorem isWall_outside_is_wall:
  "\<lfloor>y\<rfloor> < 0 \<or> \<lfloor>y\<rfloor> \<ge> int (length g) \<or> \<lfloor>x\<rfloor> < 0 \<or> \<lfloor>x\<rfloor> \<ge> grid_width g
   \<Longrightarrow> isWall g x y = Inr True"
  by (cases g) (auto simp: isWall_def Let_def row0_length_def grid_width_def)

theorem isWall_outside_is_wall_witness:
  "(\<lfloor>2.2::real\<rfloor> < 0 \<or> \<lfloor>2.2::real\<rfloor> \<ge> int (length ([]::grid_t))
      \<or> \<lfloor>3.7::real\<rfloor> < 0 \<or> \<lfloor>3.7::real\<rfloor> \<ge> grid_width [])
   \<and> isWall [] 3.7 2.2 = Inr True
   \<and> isWall [[1,1,1],[1,0,1],[1,1,1]] (-0.5) 1.5 = Inr True
   \<and> isWall [[1,1,1],[1,0,1],[1,1,1]] 1.5 3 = Inr True"
  using isWall_outside_is_wall [of "2.2" "[]" "3.7"]
    isWall_outside_is_wall [of "1.5" "[[1,1,1],[1,0,1],[1,1,1]]" "-0.5"]
    isWall_outside_is_wall [of "3" "[[1,1,1],[1,0,1],[1,1,1]]" "1.5"]
  by (simp add: grid_width_def)

subsection \<open>Movement\<close>

lemma canStand_no_error: "\<exists>b. canStand g x y = Inr b"
proof -
  obtain b1 where b1: "isWall g (x + 7/50) y = Inr b1" using isWall_no_error by blast
  obtain b2 where b2: "isWall g (x - 7/50) y = Inr b2" using isWall_no_error by blast
  obtain b3 where b3: "isWall g x (y + 7/50) = Inr b3" using isWall_no_error by blast
  obtain b4 where b4: "isWall g x (y - 7/50) = Inr b4" using isWall_no_error by blast
  show ?thesis by (auto simp: canStand_def Let_def b1 b2 b3 b4)
qed

text \<open>
  C3. If the actor's position passes \<open>canStand\<close> (none of the four probe points at
  radius 0.14 is in a wall cell), then for every target \<open>(nx, ny)\<close> the call
  \<open>tryMove\<close> returns an actor whose position passes \<open>canStand\<close> again. The actor is a
  player or an enemy: any record with the actor's fields.
\<close>

theorem tryMove_keeps_canStand:
  assumes "canStand g (xpos a) (ypos a) = Inr True"
  shows "\<exists>a'. tryMove g a nx ny = Inr a' \<and> canStand g (xpos a') (ypos a') = Inr True"
proof -
  obtain okx where okx: "canStand g nx (ypos a) = Inr okx" using canStand_no_error by blast
  define a1 where "a1 = (if okx then a\<lparr>xpos := nx\<rparr> else a)"
  obtain oky where oky: "canStand g (xpos a1) ny = Inr oky" using canStand_no_error by blast
  define a2 where "a2 = (if oky then a1\<lparr>ypos := ny\<rparr> else a1)"
  have a1_ok: "canStand g (xpos a1) (ypos a1) = Inr True"
    using assms okx by (cases okx) (simp_all add: a1_def)
  have "tryMove g a nx ny = Inr a2"
    using okx oky by (simp add: tryMove_def Let_def a1_def a2_def)
  moreover have "canStand g (xpos a2) (ypos a2) = Inr True"
    using a1_ok oky by (cases oky) (simp_all add: a2_def)
  ultimately show ?thesis by blast
qed

lemma canStand_room3_start: "canStand room3 (xpos demo_actor) (ypos demo_actor) = Inr True"
  by (simp add: canStand_def isWall_def room3_def demo_actor_def row0_length_def cell_at_def Let_def)

lemma tryMove_room3_slide: "tryMove room3 demo_actor 2.9 1.2 = Inr (demo_actor\<lparr>ypos := 1.2\<rparr>)"
  by (simp add: tryMove_def canStand_def isWall_def room3_def demo_actor_def row0_length_def
      cell_at_def Let_def)

theorem tryMove_keeps_canStand_witness:
  "canStand room3 (xpos demo_actor) (ypos demo_actor) = Inr True
   \<and> tryMove room3 demo_actor 2.9 1.2 = Inr (demo_actor\<lparr>ypos := 1.2\<rparr>)
   \<and> canStand room3 (xpos (demo_actor\<lparr>ypos := 1.2\<rparr>)) (ypos (demo_actor\<lparr>ypos := 1.2\<rparr>)) = Inr True"
  using tryMove_keeps_canStand [OF canStand_room3_start, of "2.9" "1.2"]
  by (simp only: canStand_room3_start tryMove_room3_slide) auto

subsection \<open>Pickups\<close>










subsection \<open>Look input\<close>

text \<open>
  C10. When the game is not running or is paused, \<open>addLook\<close> returns the session
  unchanged for every \<open>dx\<close>: the facing angle, like everything else, keeps its value.
\<close>

theorem addLook_ignored_outside_play:
  "\<not> running s \<or> paused s \<Longrightarrow> addLook s dx = s"
  by (simp add: addLook_def)

lemma demo_game_paused: "paused ((demo_game 0 [])\<lparr>paused := True\<rparr>)"
  by simp

theorem addLook_ignored_outside_play_witness:
  "paused ((demo_game 0 [])\<lparr>paused := True\<rparr>)
   \<and> addLook ((demo_game 0 [])\<lparr>paused := True\<rparr>) 40 = (demo_game 0 [])\<lparr>paused := True\<rparr>
   \<and> \<not> running ((demo_game 0 [])\<lparr>running := False\<rparr>)
   \<and> addLook ((demo_game 0 [])\<lparr>running := False\<rparr>) (- 3) = (demo_game 0 [])\<lparr>running := False\<rparr>"
  using addLook_ignored_outside_play [of "(demo_game 0 [])\<lparr>paused := True\<rparr>" 40]
    addLook_ignored_outside_play [of "(demo_game 0 [])\<lparr>running := False\<rparr>" "- 3"]
  by simp

subsection \<open>Enemy state machine\<close>

declare see_loop.simps [simp del]
declare wrap_up.simps [simp del] wrap_down.simps [simp del]

lemma bind_err_Inl_iff:
  "bind_err m f = Inl e \<longleftrightarrow> m = Inl e \<or> (\<exists>v. m = Inr v \<and> f v = Inl e)"
  by (cases m) auto

lemma bind_err_Inr_iff:
  "bind_err m f = Inr y \<longleftrightarrow> (\<exists>v. m = Inr v \<and> f v = Inr y)"
  by (cases m) auto

lemma isWall_not_Inl: "isWall g x y \<noteq> Inl e"
  using isWall_no_error [of g x y] by auto

lemma canStand_not_Inl: "canStand g x y \<noteq> Inl e"
  using canStand_no_error [of g x y] by auto

lemma tryMove_not_Inl: "tryMove g a nx ny \<noteq> Inl e"
  unfolding tryMove_def Let_def by (simp add: bind_err_Inl_iff canStand_not_Inl)

lemma tryMove_result:
  "tryMove g a nx ny = Inr a' \<Longrightarrow> \<exists>u v. a' = a\<lparr>xpos := u, ypos := v\<rparr>"
proof -
  assume h: "tryMove g a nx ny = Inr a'"
  have 1: "a = a\<lparr>xpos := xpos a, ypos := ypos a\<rparr>" by simp
  have 2: "a\<lparr>ypos := ny\<rparr> = a\<lparr>xpos := xpos a, ypos := ny\<rparr>" by simp
  have 3: "a\<lparr>xpos := nx\<rparr> = a\<lparr>xpos := nx, ypos := ypos a\<rparr>" by simp
  from h have "a' = a \<or> a' = a\<lparr>ypos := ny\<rparr> \<or> a' = a\<lparr>xpos := nx\<rparr> \<or> a' = a\<lparr>xpos := nx, ypos := ny\<rparr>"
    unfolding tryMove_def Let_def by (auto simp: bind_err_Inr_iff split: if_splits)
  then show ?thesis using 1 2 3 by metis
qed

lemma see_loop_not_Inl: "see_loop g ex ey dx dy steps i \<noteq> Inl e"
proof (induction g ex ey dx dy steps i rule: see_loop.induct)
  case (1 g ex ey dx dy steps i)
  show ?case
    by (subst see_loop.simps) (use 1 in \<open>auto simp: Let_def bind_err_Inl_iff isWall_not_Inl\<close>)
qed

lemma canSeePlayer_not_Inl: "canSeePlayer s m \<noteq> Inl e"
  unfolding canSeePlayer_def Let_def by (simp add: see_loop_not_Inl)

lemma enemy_target_not_Inl: "enemy_target s \<noteq> Inl e"
  unfolding enemy_target_def Let_def
  by (auto simp: bind_err_Inl_iff isWall_not_Inl split: prod.splits if_splits)

lemma enemy_target_frame:
  "enemy_target s = Inr (ta, s') \<Longrightarrow> enemy s' = enemy s"
  unfolding enemy_target_def Let_def R_call_def
  by (auto simp: bind_err_Inr_iff split: prod.splits if_splits)

lemma enemy_move_not_Inl: "enemy_move s ta dt \<noteq> Inl e"
  unfolding enemy_move_def Let_def by (simp add: bind_err_Inl_iff tryMove_not_Inl)

lemma enemy_move_frame:
  assumes "enemy_move s ta dt = Inr s'"
  shows "state (enemy s') = state (enemy s) \<and> lastSeen (enemy s') = lastSeen (enemy s)"
proof -
  define e1 where "e1 = (enemy s)\<lparr>angle := angle (enemy s) + wrapAngle (ta - angle (enemy s)) * clamp (dt * 4.0) 0 1\<rparr>"
  from assms obtain e2 nx ny where t: "tryMove (grid s) e1 nx ny = Inr e2"
    and s': "s' = s\<lparr>enemy := e2\<rparr> \<or> s' = gameOver (s\<lparr>enemy := e2\<rparr>)"
    unfolding enemy_move_def Let_def e1_def by (auto simp: bind_err_Inr_iff split: if_splits)
  from tryMove_result [OF t] obtain u v where "e2 = e1\<lparr>xpos := u, ypos := v\<rparr>" by blast
  then have "state e2 = state (enemy s) \<and> lastSeen e2 = lastSeen (enemy s)"
    by (simp add: e1_def)
  moreover from s' have "enemy s' = e2" by (auto simp: gameOver_def)
  ultimately show ?thesis by simp
qed

lemma stepEnemy_follows_sense:
  assumes sees: "canSeePlayer s 12 = Inr sees"
  shows "\<exists>s'. stepEnemy s dt now = Inr s'
           \<and> state (enemy s') = state (enemy (enemy_sense s sees now))
           \<and> lastSeen (enemy s') = lastSeen (enemy (enemy_sense s sees now))"
proof -
  let ?s1 = "enemy_sense s sees now"
  obtain ta s2 where t: "enemy_target ?s1 = Inr (ta, s2)"
    using enemy_target_not_Inl [of ?s1] by (cases "enemy_target ?s1") auto
  obtain s3 where m: "enemy_move s2 ta dt = Inr s3"
    using enemy_move_not_Inl [of s2 ta dt] by (cases "enemy_move s2 ta dt") auto
  have "stepEnemy s dt now = Inr s3"
    unfolding stepEnemy_def Let_def using sees t m by simp
  then show ?thesis
    using enemy_move_frame [OF m] enemy_target_frame [OF t] by simp
qed

text \<open>
  C7 (as amended). If the line-of-sight check succeeds, one \<open>stepEnemy\<close> update leaves
  the enemy in state \<open>chase\<close> with \<open>lastSeen\<close> set to the time of the update. If the
  check fails, the enemy is in \<open>chase\<close> and more than 1.8 seconds have passed since
  \<open>lastSeen\<close>, the update leaves the enemy in state \<open>wander\<close>. In both cases the update
  returns (it raises nothing).
\<close>

theorem stepEnemy_state_machine:
  "(canSeePlayer s 12 = Inr True \<longrightarrow>
      (\<exists>s'. stepEnemy s dt now = Inr s' \<and> state (enemy s') = ''chase'' \<and> lastSeen (enemy s') = now))
   \<and> (canSeePlayer s 12 = Inr False \<and> state (enemy s) = ''chase'' \<and> now - lastSeen (enemy s) > 1.8 \<longrightarrow>
      (\<exists>s'. stepEnemy s dt now = Inr s' \<and> state (enemy s') = ''wander''))"
proof (intro conjI impI)
  assume "canSeePlayer s 12 = Inr True"
  from stepEnemy_follows_sense [OF this, of dt now]
  show "\<exists>s'. stepEnemy s dt now = Inr s' \<and> state (enemy s') = ''chase'' \<and> lastSeen (enemy s') = now"
    by (simp add: enemy_sense_def)
next
  assume "canSeePlayer s 12 = Inr False \<and> state (enemy s) = ''chase'' \<and> now - lastSeen (enemy s) > 1.8"
  then have c: "canSeePlayer s 12 = Inr False" and e: "state (enemy s) = ''chase''"
    and g: "now - lastSeen (enemy s) > 1.8"
    by simp_all
  from stepEnemy_follows_sense [OF c, of dt now] e g
  show "\<exists>s'. stepEnemy s dt now = Inr s' \<and> state (enemy s') = ''wander''"
    by (auto simp: enemy_sense_def)
qed

lemma hypot_zero: "hypot a 0 = \<bar>a\<bar>"
  by (simp add: hypot_def)

lemma enemy_game_fields:
  "grid (enemy_game g st) = g"
  "xpos (player (enemy_game g st)) = 9 / 2" "ypos (player (enemy_game g st)) = 3 / 2"
  "xpos (enemy (enemy_game g st)) = 3 / 2" "ypos (enemy (enemy_game g st)) = 3 / 2"
  "state (enemy (enemy_game g st)) = st" "lastSeen (enemy (enemy_game g st)) = 0"
  by (simp_all add: enemy_game_def)

lemma canSee_hall: "canSeePlayer (enemy_game hall st) 12 = Inr True"
  unfolding canSeePlayer_def Let_def enemy_game_fields
  apply (simp add: hypot_zero)
  apply (simp add: see_loop.simps isWall_def row0_length_def cell_at_def hall_def Let_def)
  done

lemma canSee_blocked: "canSeePlayer (enemy_game blocked_hall st) 12 = Inr False"
  unfolding canSeePlayer_def Let_def enemy_game_fields
  apply (simp add: hypot_zero)
  apply (simp add: see_loop.simps isWall_def row0_length_def cell_at_def blocked_hall_def Let_def)
  done

theorem stepEnemy_state_machine_witness:
  "canSeePlayer (enemy_game hall ''wander'') 12 = Inr True
   \<and> (\<exists>s'. stepEnemy (enemy_game hall ''wander'') 0.016 5 = Inr s'
          \<and> state (enemy s') = ''chase'' \<and> lastSeen (enemy s') = 5)
   \<and> canSeePlayer (enemy_game blocked_hall ''chase'') 12 = Inr False
   \<and> state (enemy (enemy_game blocked_hall ''chase'')) = ''chase''
   \<and> 2 - lastSeen (enemy (enemy_game blocked_hall ''chase'')) > 1.8
   \<and> (\<exists>s'. stepEnemy (enemy_game blocked_hall ''chase'') 0.016 2 = Inr s'
          \<and> state (enemy s') = ''wander'')"
  using stepEnemy_state_machine [of "enemy_game hall ''wander''" "0.016" 5]
    stepEnemy_state_machine [of "enemy_game blocked_hall ''chase''" "0.016" 2]
  by (simp add: canSee_hall canSee_blocked enemy_game_fields)

text \<open>
  The claim as written (\<open>at least 1.8 seconds\<close>) fails at the boundary: with the sight
  line blocked, the enemy in \<open>chase\<close>, \<open>lastSeen = 0\<close> and \<open>now = 1.8\<close>, exactly 1.8
  seconds have passed and the enemy stays in \<open>chase\<close>, since the source tests
  \<open>(now - lastSeen) > 1.8\<close>.
\<close>

theorem stepEnemy_at_boundary_counterexample:
  "canSeePlayer (enemy_game blocked_hall ''chase'') 12 = Inr False
   \<and> state (enemy (enemy_game blocked_hall ''chase'')) = ''chase''
   \<and> 1.8 - lastSeen (enemy (enemy_game blocked_hall ''chase'')) \<ge> 1.8
   \<and> enemy_state_after (enemy_game blocked_hall ''chase'') 0.016 1.8 = Inr ''chase''"
proof -
  from stepEnemy_follows_sense [OF canSee_blocked, of "''chase''" "0.016" "1.8"]
  obtain s' where s': "stepEnemy (enemy_game blocked_hall ''chase'') 0.016 1.8 = Inr s'"
    and st: "state (enemy s') = state (enemy (enemy_sense (enemy_game blocked_hall ''chase'') False 1.8))"
    by blast
  have "state (enemy (enemy_sense (enemy_game blocked_hall ''chase'') False 1.8)) = ''chase''"
    by (simp add: enemy_sense_def enemy_game_fields)
  with s' st have "enemy_state_after (enemy_game blocked_hall ''chase'') 0.016 1.8 = Inr ''chase''"
    by (simp add: enemy_state_after_def)
  then show ?thesis by (simp add: canSee_blocked enemy_game_fields)
qed

subsection \<open>Raycaster\<close>

declare dda_loop.simps [simp del]

lemma ray_blocked_total: "\<exists>b. ray_blocked g st = Inr b"
  by (cases g) (auto simp: ray_blocked_def row0_length_def cell_at_def Let_def)

lemma ray_blocked_hit: "ray_blocked g (st\<lparr>hit := h\<rparr>) = ray_blocked g st"
  by (simp add: ray_blocked_def cong: if_cong)

lemma isWall_floor: "isWall g x y = isWall g (of_int \<lfloor>x\<rfloor>) (of_int \<lfloor>y\<rfloor>)"
  by (simp add: isWall_def)

lemma ray_blocked_isWall: "ray_blocked g st = isWall g (of_int (mapX st)) (of_int (mapY st))"
  by (simp add: ray_blocked_def isWall_def Let_def cong: if_cong)

lemma dda_loop_spec:
  "i \<le> 128 \<Longrightarrow>
   \<exists>k. k \<le> 128 - i
     \<and> (\<forall>j. 1 \<le> j \<and> j < k \<longrightarrow> ray_blocked g (((dda_advance ddx ddy sx sy) ^^ j) st) = Inr False)
     \<and> ((1 \<le> k \<and> ray_blocked g (((dda_advance ddx ddy sx sy) ^^ k) st) = Inr True
          \<and> dda_loop g ddx ddy sx sy i st = Inr ((((dda_advance ddx ddy sx sy) ^^ k) st)\<lparr>hit := 1\<rparr>))
        \<or> (k = 128 - i
          \<and> (1 \<le> k \<longrightarrow> ray_blocked g (((dda_advance ddx ddy sx sy) ^^ k) st) = Inr False)
          \<and> dda_loop g ddx ddy sx sy i st = Inr (((dda_advance ddx ddy sx sy) ^^ k) st)))"
proof (induction g ddx ddy sx sy i st rule: dda_loop.induct)
  case (1 g ddx ddy sx sy i st)
  let ?adv = "dda_advance ddx ddy sx sy"
  show ?case
  proof (cases "i < 128")
    case False
    with "1.prems" have "i = 128" by simp
    then have "dda_loop g ddx ddy sx sy i st = Inr st" by (subst dda_loop.simps) simp
    then show ?thesis using \<open>i = 128\<close> by (intro exI [of _ 0]) simp
  next
    case True
    obtain b where b: "ray_blocked g (?adv st) = Inr b" using ray_blocked_total by blast
    show ?thesis
    proof (cases b)
      case True
      have "dda_loop g ddx ddy sx sy i st = Inr ((?adv st)\<lparr>hit := 1\<rparr>)"
        by (subst dda_loop.simps) (simp only: \<open>i < 128\<close> if_True Let_def b True bind_err.simps)
      then show ?thesis using b True \<open>i < 128\<close> by (intro exI [of _ 1]) simp
    next
      case False
      have unf: "dda_loop g ddx ddy sx sy i st = dda_loop g ddx ddy sx sy (Suc i) (?adv st)"
        by (subst dda_loop.simps) (simp only: \<open>i < 128\<close> if_True Let_def b False bind_err.simps if_False)
      from "1.IH" [OF \<open>i < 128\<close> refl, of b] False \<open>i < 128\<close>
      obtain k where k: "k \<le> 128 - Suc i"
        and before: "\<forall>j. 1 \<le> j \<and> j < k \<longrightarrow> ray_blocked g ((?adv ^^ j) (?adv st)) = Inr False"
        and fin: "(1 \<le> k \<and> ray_blocked g ((?adv ^^ k) (?adv st)) = Inr True
            \<and> dda_loop g ddx ddy sx sy (Suc i) (?adv st) = Inr (((?adv ^^ k) (?adv st))\<lparr>hit := 1\<rparr>))
          \<or> (k = 128 - Suc i
            \<and> (1 \<le> k \<longrightarrow> ray_blocked g ((?adv ^^ k) (?adv st)) = Inr False)
            \<and> dda_loop g ddx ddy sx sy (Suc i) (?adv st) = Inr ((?adv ^^ k) (?adv st)))"
        by auto
      have sw: "(?adv ^^ j) (?adv st) = (?adv ^^ Suc j) st" for j
        by (simp add: funpow_swap1)
      have before': "\<forall>j. 1 \<le> j \<and> j < Suc k \<longrightarrow> ray_blocked g ((?adv ^^ j) st) = Inr False"
      proof (intro allI impI)
        fix j assume j: "1 \<le> j \<and> j < Suc k"
        show "ray_blocked g ((?adv ^^ j) st) = Inr False"
        proof (cases "j = 1")
          case True
          then show ?thesis using b False by simp
        next
          case False
          with j obtain j' where j': "j = Suc j'" "1 \<le> j'" "j' < k" by (cases j) auto
          with before have "ray_blocked g ((?adv ^^ j') (?adv st)) = Inr False" by blast
          then show ?thesis using j' sw by simp
        qed
      qed
      have last0: "k = 0 \<Longrightarrow> ray_blocked g ((?adv ^^ Suc k) st) = Inr False"
        using b False by simp
      show ?thesis
        apply (intro exI [of _ "Suc k"])
        using k before' fin \<open>i < 128\<close> last0 unfolding unf sw
        by (cases "k = 0") auto
    qed
  qed
qed

lemma raycast_by_march:
  "raycast_march s a = Inr st \<Longrightarrow> raycast s a = Inr (ray_result_of a st)"
  by (simp add: raycast_def ray_result_of_def Let_def)

lemma ray_init_hit: "hit (ray_init s a) = 0"
  by (simp add: ray_init_def Let_def)

lemma dda_advance_hit: "hit (dda_advance ddx ddy sx sy st) = hit st"
  by (simp add: dda_advance_def)

lemma ray_cell_hit: "hit (ray_cell s a k) = 0"
  unfolding ray_cell_def by (induction k) (simp_all add: ray_init_hit dda_advance_hit)

lemma raycast_march_spec:
  "\<exists>k. 1 \<le> k \<and> k \<le> 128
      \<and> (\<forall>j. 1 \<le> j \<and> j < k \<longrightarrow>
            isWall (grid s) (of_int (mapX (ray_cell s a j))) (of_int (mapY (ray_cell s a j))) = Inr False)
      \<and> (isWall (grid s) (of_int (mapX (ray_cell s a k))) (of_int (mapY (ray_cell s a k))) = Inr True
            \<and> raycast_march s a = Inr ((ray_cell s a k)\<lparr>hit := 1\<rparr>)
          \<or> k = 128
            \<and> isWall (grid s) (of_int (mapX (ray_cell s a k))) (of_int (mapY (ray_cell s a k))) = Inr False
            \<and> raycast_march s a = Inr (ray_cell s a k))"
proof -
  from dda_loop_spec [of 0 "grid s" "ray_delta (cos a)" "ray_delta (sin a)" "ray_step (cos a)" "ray_step (sin a)" "ray_init s a"]
  obtain k where k: "k \<le> 128"
    and before: "\<forall>j. 1 \<le> j \<and> j < k \<longrightarrow> ray_blocked (grid s) (ray_cell s a j) = Inr False"
    and fin: "(1 \<le> k \<and> ray_blocked (grid s) (ray_cell s a k) = Inr True
          \<and> raycast_march s a = Inr ((ray_cell s a k)\<lparr>hit := 1\<rparr>))
        \<or> (k = 128
          \<and> (1 \<le> k \<longrightarrow> ray_blocked (grid s) (ray_cell s a k) = Inr False)
          \<and> raycast_march s a = Inr (ray_cell s a k))"
    unfolding ray_cell_def raycast_march_def by auto
  from fin have k1: "1 \<le> k" by auto
  from k k1 before fin show ?thesis
    unfolding ray_blocked_isWall by (intro exI [of _ k]) auto
qed

lemma raycast_first_wall:
  assumes k: "1 \<le> k" "k \<le> 128"
    and before: "\<forall>j. 1 \<le> j \<and> j < k \<longrightarrow>
            isWall (grid s) (of_int (mapX (ray_cell s a j))) (of_int (mapY (ray_cell s a j))) = Inr False"
    and wall: "isWall (grid s) (of_int (mapX (ray_cell s a k))) (of_int (mapY (ray_cell s a k))) = Inr True"
  shows "raycast_march s a = Inr ((ray_cell s a k)\<lparr>hit := 1\<rparr>)"
proof -
  from raycast_march_spec [of s a] obtain m where m: "1 \<le> m" "m \<le> 128"
    and mb: "\<forall>j. 1 \<le> j \<and> j < m \<longrightarrow>
            isWall (grid s) (of_int (mapX (ray_cell s a j))) (of_int (mapY (ray_cell s a j))) = Inr False"
    and mf: "isWall (grid s) (of_int (mapX (ray_cell s a m))) (of_int (mapY (ray_cell s a m))) = Inr True
            \<and> raycast_march s a = Inr ((ray_cell s a m)\<lparr>hit := 1\<rparr>)
          \<or> m = 128
            \<and> isWall (grid s) (of_int (mapX (ray_cell s a m))) (of_int (mapY (ray_cell s a m))) = Inr False
            \<and> raycast_march s a = Inr (ray_cell s a m)"
    by blast
  have "\<not> k < m" using mb k wall by auto
  moreover have "\<not> m < k" using before m mf k by auto
  ultimately have "m = k" by simp
  with mf wall show ?thesis by auto
qed

lemma raycast_exhausted:
  assumes "\<forall>j. 1 \<le> j \<and> j \<le> 128 \<longrightarrow>
            isWall (grid s) (of_int (mapX (ray_cell s a j))) (of_int (mapY (ray_cell s a j))) = Inr False"
  shows "raycast_march s a = Inr (ray_cell s a 128)"
proof -
  from raycast_march_spec [of s a] obtain m where m: "1 \<le> m" "m \<le> 128"
    and mf: "isWall (grid s) (of_int (mapX (ray_cell s a m))) (of_int (mapY (ray_cell s a m))) = Inr True
            \<and> raycast_march s a = Inr ((ray_cell s a m)\<lparr>hit := 1\<rparr>)
          \<or> m = 128
            \<and> isWall (grid s) (of_int (mapX (ray_cell s a m))) (of_int (mapY (ray_cell s a m))) = Inr False
            \<and> raycast_march s a = Inr (ray_cell s a m)"
    by blast
  from assms m have "isWall (grid s) (of_int (mapX (ray_cell s a m))) (of_int (mapY (ray_cell s a m))) = Inr False"
    by blast
  with mf show ?thesis by auto
qed

lemma ray_delta_nonneg: "0 \<le> ray_delta d"
  by (simp add: ray_delta_def)

lemma ray_delta_le: "1 / 2 \<le> \<bar>d\<bar> \<Longrightarrow> ray_delta d \<le> 2"
proof -
  assume h: "1 / 2 \<le> \<bar>d\<bar>"
  then have "d \<noteq> 0" by auto
  then have "ray_delta d = 1 / \<bar>d\<bar>" by (simp add: ray_delta_def)
  also have "\<dots> \<le> 1 / (1 / 2)" using h by (intro divide_left_mono) simp_all
  finally show ?thesis by simp
qed

lemma cos_or_sin_half: "1 / 2 \<le> \<bar>cos a\<bar> \<or> 1 / 2 \<le> \<bar>sin a :: real\<bar>"
proof (rule ccontr)
  assume "\<not> ?thesis"
  then have c: "\<bar>cos a\<bar> < 1 / 2" and s: "\<bar>sin a\<bar> < 1 / 2" by simp_all
  have "(cos a)\<^sup>2 = \<bar>cos a\<bar>\<^sup>2" by simp
  also have "\<dots> < (1 / 2)\<^sup>2" using c by (intro power_strict_mono) simp_all
  finally have c2: "(cos a)\<^sup>2 < 1 / 4" by (simp add: power2_eq_square)
  have "(sin a)\<^sup>2 = \<bar>sin a\<bar>\<^sup>2" by simp
  also have "\<dots> < (1 / 2)\<^sup>2" using s by (intro power_strict_mono) simp_all
  finally have s2: "(sin a)\<^sup>2 < 1 / 4" by (simp add: power2_eq_square)
  from c2 s2 sin_cos_squared_add [of a] show False by simp
qed

lemma ray_init_side:
  "0 \<le> sideDistX (ray_init s a) \<and> sideDistX (ray_init s a) \<le> ray_delta (cos a)
   \<and> 0 \<le> sideDistY (ray_init s a) \<and> sideDistY (ray_init s a) \<le> ray_delta (sin a)"
proof -
  have f: "0 \<le> x - of_int \<lfloor>x\<rfloor>" "x - of_int \<lfloor>x\<rfloor> \<le> 1"
    "0 \<le> of_int \<lfloor>x\<rfloor> + 1 - x" "of_int \<lfloor>x\<rfloor> + 1 - x \<le> 1" for x :: real
    by linarith+
  have m: "0 \<le> u * d \<and> u * d \<le> d" if "0 \<le> u" "u \<le> 1" "0 \<le> d" for u d :: real
    using that by (simp add: mult_left_le_one_le)
  show ?thesis
    unfolding ray_init_def Let_def
    using m [OF f(1) f(2) ray_delta_nonneg, of "xpos (player s)" "cos a"]
      m [OF f(3) f(4) ray_delta_nonneg, of "xpos (player s)" "cos a"]
      m [OF f(1) f(2) ray_delta_nonneg, of "ypos (player s)" "sin a"]
      m [OF f(3) f(4) ray_delta_nonneg, of "ypos (player s)" "sin a"]
    by simp
qed

lemma ray_first_dist:
  "res_dist (ray_result_of a (ray_cell s a 1)) = min (sideDistX (ray_init s a)) (sideDistY (ray_init s a))
   \<and> 0 \<le> res_dist (ray_result_of a (ray_cell s a 1))
   \<and> res_dist (ray_result_of a (ray_cell s a 1)) \<le> 2"
proof -
  have e: "res_dist (ray_result_of a (ray_cell s a 1))
      = min (sideDistX (ray_init s a)) (sideDistY (ray_init s a))"
    by (simp add: ray_result_of_def ray_cell_def dda_advance_def min_def)
  from ray_init_side [of s a] cos_or_sin_half [of a] ray_delta_le [of "cos a"] ray_delta_le [of "sin a"]
  have "0 \<le> min (sideDistX (ray_init s a)) (sideDistY (ray_init s a))"
    "min (sideDistX (ray_init s a)) (sideDistY (ray_init s a)) \<le> 2"
    by (auto simp: min_def)
  with e show ?thesis by simp
qed

text \<open>
  Rays towards \<open>+x\<close> (angle 0) from (1.5, 1.5): after \<open>k \<le> 128\<close> steps the march is in
  cell \<open>(1 + k, 1)\<close>.
\<close>

lemma ray_game_fields:
  "xpos (player ray_game) = 1.5" "ypos (player ray_game) = 1.5"
  "grid ray_game = [[1,1,1],[1,0,1],[1,1,1]]"
  by (simp_all add: ray_game_def)

lemma ray_game_wall: "isWall (grid ray_game) 2 1.5 = Inr True"
  by (simp add: ray_game_fields isWall_def row0_length_def cell_at_def Let_def)

lemma ray_cell_east:
  assumes p: "xpos (player s) = 3 / 2" "ypos (player s) = 3 / 2"
  shows "k \<le> 128 \<Longrightarrow> ray_cell s 0 k =
     \<lparr>sideDistX = 1 / 2 + real k, sideDistY = 500000000, mapX = 1 + int k, mapY = 1,
      side = 0, hit = 0\<rparr>"
proof (induction k)
  case 0
  have d: "ray_delta 1 = 1" "ray_delta 0 = 1000000000" by (simp_all add: ray_delta_def)
  show ?case
    unfolding ray_cell_def funpow.simps id_apply ray_init_def Let_def p cos_zero sin_zero d
    by simp
next
  case (Suc k)
  have d: "ray_delta 1 = 1" "ray_delta 0 = 1000000000" by (simp_all add: ray_delta_def)
  have st: "ray_step 1 = 1" "ray_step 0 = 1" by (simp_all add: ray_step_def)
  from Suc have c: "ray_cell s 0 k =
     \<lparr>sideDistX = 1 / 2 + real k, sideDistY = 500000000, mapX = 1 + int k, mapY = 1,
      side = 0, hit = 0\<rparr>" and k: "k < 128" by simp_all
  have "ray_cell s 0 (Suc k) = dda_advance 1 1000000000 1 1 (ray_cell s 0 k)"
    by (simp add: ray_cell_def d st)
  also have "\<dots> = \<lparr>sideDistX = 1 / 2 + real (Suc k), sideDistY = 500000000,
      mapX = 1 + int (Suc k), mapY = 1, side = 0, hit = 0\<rparr>"
    unfolding c using k by (simp add: dda_advance_def)
  finally show ?case .
qed

lemma raycast_east_wall:
  assumes p: "xpos (player s) = 3 / 2" "ypos (player s) = 3 / 2"
    and k: "1 \<le> k" "k \<le> 128"
    and before: "\<forall>x. 2 \<le> x \<and> x \<le> int k \<longrightarrow> isWall (grid s) (of_int x) 1 = Inr False"
    and wall: "isWall (grid s) (of_int (1 + int k)) 1 = Inr True"
  shows "raycast s 0 = Inr \<lparr>res_dist = real k - 1 / 2, res_side = 0, res_mapX = 1 + int k, res_mapY = 1\<rparr>
     \<and> raycast_march s 0 = Inr ((ray_cell s 0 k)\<lparr>hit := 1\<rparr>)"
proof -
  have d: "ray_delta 1 = 1" by (simp add: ray_delta_def)
  have b: "\<forall>j. 1 \<le> j \<and> j < k \<longrightarrow>
      isWall (grid s) (of_int (mapX (ray_cell s 0 j))) (of_int (mapY (ray_cell s 0 j))) = Inr False"
  proof (intro allI impI)
    fix j assume j: "1 \<le> j \<and> j < k"
    with k have "j \<le> 128" by simp
    from j spec [OF before, of "1 + int j"]
    have "isWall (grid s) (of_int (1 + int j)) 1 = Inr False" by simp
    then show "isWall (grid s) (of_int (mapX (ray_cell s 0 j))) (of_int (mapY (ray_cell s 0 j))) = Inr False"
      by (simp add: ray_cell_east [OF p \<open>j \<le> 128\<close>])
  qed
  have w: "isWall (grid s) (of_int (mapX (ray_cell s 0 k))) (of_int (mapY (ray_cell s 0 k))) = Inr True"
    using wall by (simp add: ray_cell_east [OF p k(2)])
  from raycast_first_wall [OF k b w] have m: "raycast_march s 0 = Inr ((ray_cell s 0 k)\<lparr>hit := 1\<rparr>)" .
  from raycast_by_march [OF m] m show ?thesis
    by (simp add: ray_result_of_def ray_cell_east [OF p k(2)] d)
qed

lemma raycast_east_open:
  assumes p: "xpos (player s) = 3 / 2" "ypos (player s) = 3 / 2"
    and free: "\<forall>x. 2 \<le> x \<and> x \<le> 129 \<longrightarrow> isWall (grid s) (of_int x) 1 = Inr False"
  shows "raycast s 0 = Inr \<lparr>res_dist = 255 / 2, res_side = 0, res_mapX = 129, res_mapY = 1\<rparr>
     \<and> raycast_march s 0 = Inr (ray_cell s 0 128) \<and> hit (ray_cell s 0 128) = 0"
proof -
  have d: "ray_delta 1 = 1" by (simp add: ray_delta_def)
  have b: "\<forall>j. 1 \<le> j \<and> j \<le> 128 \<longrightarrow>
      isWall (grid s) (of_int (mapX (ray_cell s 0 j))) (of_int (mapY (ray_cell s 0 j))) = Inr False"
  proof (intro allI impI)
    fix j :: nat assume j: "1 \<le> j \<and> j \<le> 128"
    then have "j \<le> 128" by simp
    from j spec [OF free, of "1 + int j"]
    have "isWall (grid s) (of_int (1 + int j)) 1 = Inr False" by simp
    then show "isWall (grid s) (of_int (mapX (ray_cell s 0 j))) (of_int (mapY (ray_cell s 0 j))) = Inr False"
      by (simp add: ray_cell_east [OF p \<open>j \<le> 128\<close>])
  qed
  from raycast_exhausted [OF b] have m: "raycast_march s 0 = Inr (ray_cell s 0 128)" .
  from raycast_by_march [OF m] m show ?thesis
    by (simp add: ray_result_of_def ray_cell_east [OF p, of 128] d)
qed

lemma hall_cells:
  "isWall hall 2 1 = Inr False" "isWall hall 3 1 = Inr False" "isWall hall 4 1 = Inr False"
  "isWall hall 5 1 = Inr True"
  by (simp_all add: isWall_def hall_def row0_length_def cell_at_def Let_def)

lemma hall_game_fields:
  "xpos (player hall_game) = 3 / 2" "ypos (player hall_game) = 3 / 2" "grid hall_game = hall"
  by (simp_all add: hall_game_def ray_game_def)

lemma long_game_fields:
  "xpos (player long_game) = 3 / 2" "ypos (player long_game) = 3 / 2" "grid long_game = long_hall"
  by (simp_all add: long_game_def ray_game_def)

lemma long_hall_cells:
  assumes "2 \<le> x" "x \<le> 129"
  shows "isWall long_hall (of_int x) 1 = Inr False"
proof -
  from assms have n: "0 < nat x" "nat x - 1 < 129" by simp_all
  then have "(1 # replicate 129 0 @ [1 :: int]) ! nat x = 0"
    by (simp add: nth_Cons' nth_append)
  with assms show ?thesis
    by (simp add: isWall_def long_hall_def row0_length_def cell_at_def Let_def)
qed

lemma raycast_hall:
  "raycast hall_game 0 = Inr \<lparr>res_dist = 7 / 2, res_side = 0, res_mapX = 5, res_mapY = 1\<rparr>"
proof -
  have b: "\<forall>x. 2 \<le> x \<and> x \<le> int 4 \<longrightarrow> isWall (grid hall_game) (of_int x) 1 = Inr False"
  proof (intro allI impI)
    fix x :: int assume "2 \<le> x \<and> x \<le> int 4"
    then have "x = 2 \<or> x = 3 \<or> x = 4" by auto
    then show "isWall (grid hall_game) (of_int x) 1 = Inr False"
      by (auto simp: hall_game_fields hall_cells)
  qed
  have w: "isWall (grid hall_game) (of_int (1 + int 4)) 1 = Inr True"
    by (simp add: hall_game_fields hall_cells)
  from raycast_east_wall [OF hall_game_fields(1,2) _ _ b w] show ?thesis by simp
qed

lemma raycast_long:
  "raycast long_game 0 = Inr \<lparr>res_dist = 255 / 2, res_side = 0, res_mapX = 129, res_mapY = 1\<rparr>
   \<and> raycast_march long_game 0 = Inr (ray_cell long_game 0 128)
   \<and> hit (ray_cell long_game 0 128) = 0"
  by (rule raycast_east_open [OF long_game_fields(1,2)])
    (simp add: long_game_fields long_hall_cells)

lemma raycast_ray_game:
  "raycast ray_game 0 = Inr \<lparr>res_dist = 1 / 2, res_side = 0, res_mapX = 2, res_mapY = 1\<rparr>"
proof -
  have p: "xpos (player ray_game) = 3 / 2" "ypos (player ray_game) = 3 / 2"
    by (simp_all add: ray_game_fields)
  have w: "isWall (grid ray_game) (of_int (1 + int 1)) 1 = Inr True"
    by (simp add: ray_game_fields isWall_def row0_length_def cell_at_def Let_def)
  have b: "\<forall>x. 2 \<le> x \<and> x \<le> int 1 \<longrightarrow> isWall (grid ray_game) (of_int x) 1 = Inr False"
    by auto
  from raycast_east_wall [OF p _ _ b w] show ?thesis by simp
qed

lemma ray_game_first_cell:
  "isWall (grid ray_game) (of_int (mapX (ray_cell ray_game 0 1)))
     (of_int (mapY (ray_cell ray_game 0 1))) = Inr True"
proof -
  have p: "xpos (player ray_game) = 3 / 2" "ypos (player ray_game) = 3 / 2"
    by (simp_all add: ray_game_fields)
  have c: "ray_cell ray_game 0 1 =
      \<lparr>sideDistX = 3 / 2, sideDistY = 500000000, mapX = 2, mapY = 1, side = 0, hit = 0\<rparr>"
    using ray_cell_east [OF p, of 1] by simp
  show ?thesis
    unfolding c
    by (simp add: ray_game_fields isWall_def row0_length_def cell_at_def Let_def)
qed

lemma raycast_east_adjacent:
  assumes first: "of_int \<lfloor>xpos (player s)\<rfloor> + 1 - xpos (player s)
        < (of_int \<lfloor>ypos (player s)\<rfloor> + 1 - ypos (player s)) * 10 ^ 9"
    and wall: "isWall (grid s) (of_int (\<lfloor>xpos (player s)\<rfloor> + 1)) (of_int \<lfloor>ypos (player s)\<rfloor>) = Inr True"
  shows "raycast s 0 = Inr \<lparr>res_dist = of_int \<lfloor>xpos (player s)\<rfloor> + 1 - xpos (player s),
      res_side = 0, res_mapX = \<lfloor>xpos (player s)\<rfloor> + 1, res_mapY = \<lfloor>ypos (player s)\<rfloor>\<rparr>"
proof -
  have d: "ray_delta 1 = 1" "ray_delta 0 = 1000000000" by (simp_all add: ray_delta_def)
  have st: "ray_step 1 = 1" "ray_step 0 = 1" by (simp_all add: ray_step_def)
  have i: "ray_init s 0 = \<lparr>sideDistX = of_int \<lfloor>xpos (player s)\<rfloor> + 1 - xpos (player s),
      sideDistY = (of_int \<lfloor>ypos (player s)\<rfloor> + 1 - ypos (player s)) * 1000000000,
      mapX = \<lfloor>xpos (player s)\<rfloor>, mapY = \<lfloor>ypos (player s)\<rfloor>, side = 0, hit = 0\<rparr>"
    unfolding ray_init_def Let_def cos_zero sin_zero d by simp
  have "ray_cell s 0 1 = dda_advance 1 1000000000 1 1 (ray_init s 0)"
    by (simp add: ray_cell_def d st)
  also have "\<dots> = \<lparr>sideDistX = of_int \<lfloor>xpos (player s)\<rfloor> + 1 - xpos (player s) + 1,
      sideDistY = (of_int \<lfloor>ypos (player s)\<rfloor> + 1 - ypos (player s)) * 1000000000,
      mapX = \<lfloor>xpos (player s)\<rfloor> + 1, mapY = \<lfloor>ypos (player s)\<rfloor>, side = 0, hit = 0\<rparr>"
    unfolding i using first by (simp add: dda_advance_def)
  finally have c: "ray_cell s 0 1 =
      \<lparr>sideDistX = of_int \<lfloor>xpos (player s)\<rfloor> + 1 - xpos (player s) + 1,
      sideDistY = (of_int \<lfloor>ypos (player s)\<rfloor> + 1 - ypos (player s)) * 1000000000,
      mapX = \<lfloor>xpos (player s)\<rfloor> + 1, mapY = \<lfloor>ypos (player s)\<rfloor>, side = 0, hit = 0\<rparr>" .
  have w: "isWall (grid s) (of_int (mapX (ray_cell s 0 1))) (of_int (mapY (ray_cell s 0 1))) = Inr True"
    unfolding c using wall by simp
  have "raycast_march s 0 = Inr ((ray_cell s 0 1)\<lparr>hit := 1\<rparr>)"
    by (rule raycast_first_wall [OF _ _ _ w]) simp_all
  from raycast_by_march [OF this] show ?thesis
    unfolding c by (simp add: ray_result_of_def d)
qed

text \<open>
  C6, as the code has it. For every session and angle \<open>raycast\<close> returns after \<open>k\<close> steps
  of the march, \<open>1 \<le> k \<le> 128\<close>: no cell reached before step \<open>k\<close> is a wall or outside
  the grid (as \<open>isWall\<close> tells it); either the cell of step \<open>k\<close> is one, and the loop's
  flag \<open>hit\<close> is 1, or \<open>k = 128\<close>, the cell of step 128 is none, and the flag is still 0.
  In both cases the result is built from the cell of step \<open>k\<close> in the same way, and the
  returned object has the properties \<open>dist\<close>, \<open>side\<close>, \<open>mapX\<close>, \<open>mapY\<close> only: the flag is
  not reported. In particular, when the first cell the march enters is a wall or outside
  the grid, \<open>raycast\<close> returns that cell after one step, with the smaller of the two
  initial side distances as its distance, which lies between 0 and 2, below the step
  bound. So for a ray at angle 0 with a wall (or the grid's edge) in the next cell to
  the right, when the side distance in \<open>x\<close> is the smaller one (the component \<open>dy = 0\<close>
  is replaced by \<open>1e-9\<close>, so that the side distance in \<open>y\<close> is the distance to the cell
  below times \<open>10^9\<close>): the result is that cell and the distance to its left edge.
\<close>

theorem raycast_bounded_march:
  "(\<exists>k. 1 \<le> k \<and> k \<le> 128
      \<and> (\<forall>j. 1 \<le> j \<and> j < k \<longrightarrow>
            isWall (grid s) (of_int (mapX (ray_cell s a j))) (of_int (mapY (ray_cell s a j))) = Inr False)
      \<and> (isWall (grid s) (of_int (mapX (ray_cell s a k))) (of_int (mapY (ray_cell s a k))) = Inr True
            \<and> raycast_march s a = Inr ((ray_cell s a k)\<lparr>hit := 1\<rparr>)
          \<or> k = 128
            \<and> isWall (grid s) (of_int (mapX (ray_cell s a k))) (of_int (mapY (ray_cell s a k))) = Inr False
            \<and> raycast_march s a = Inr (ray_cell s a k) \<and> hit (ray_cell s a k) = 0)
      \<and> raycast s a = Inr (ray_result_of a (ray_cell s a k))
      \<and> map fst (ray_result_props (ray_result_of a (ray_cell s a k)))
            = [''dist'', ''side'', ''mapX'', ''mapY''])
   \<and> (isWall (grid s) (of_int (mapX (ray_cell s a 1))) (of_int (mapY (ray_cell s a 1))) = Inr True \<longrightarrow>
        raycast s a = Inr (ray_result_of a (ray_cell s a 1))
        \<and> res_dist (ray_result_of a (ray_cell s a 1))
             = min (sideDistX (ray_init s a)) (sideDistY (ray_init s a))
        \<and> 0 \<le> res_dist (ray_result_of a (ray_cell s a 1))
        \<and> res_dist (ray_result_of a (ray_cell s a 1)) \<le> 2)
   \<and> (a = 0
        \<and> of_int \<lfloor>xpos (player s)\<rfloor> + 1 - xpos (player s)
              < (of_int \<lfloor>ypos (player s)\<rfloor> + 1 - ypos (player s)) * 10 ^ 9
        \<and> isWall (grid s) (of_int (\<lfloor>xpos (player s)\<rfloor> + 1)) (of_int \<lfloor>ypos (player s)\<rfloor>) = Inr True \<longrightarrow>
        raycast s a = Inr \<lparr>res_dist = of_int \<lfloor>xpos (player s)\<rfloor> + 1 - xpos (player s),
          res_side = 0, res_mapX = \<lfloor>xpos (player s)\<rfloor> + 1, res_mapY = \<lfloor>ypos (player s)\<rfloor>\<rparr>)"
proof (intro conjI impI)
  from raycast_march_spec [of s a] obtain k where k: "1 \<le> k" "k \<le> 128"
    and before: "\<forall>j. 1 \<le> j \<and> j < k \<longrightarrow>
            isWall (grid s) (of_int (mapX (ray_cell s a j))) (of_int (mapY (ray_cell s a j))) = Inr False"
    and fin: "isWall (grid s) (of_int (mapX (ray_cell s a k))) (of_int (mapY (ray_cell s a k))) = Inr True
            \<and> raycast_march s a = Inr ((ray_cell s a k)\<lparr>hit := 1\<rparr>)
          \<or> k = 128
            \<and> isWall (grid s) (of_int (mapX (ray_cell s a k))) (of_int (mapY (ray_cell s a k))) = Inr False
            \<and> raycast_march s a = Inr (ray_cell s a k)"
    by blast
  have res_hit: "ray_result_of a (st\<lparr>hit := 1\<rparr>) = ray_result_of a st" for st
    by (simp add: ray_result_of_def)
  from fin have r: "raycast s a = Inr (ray_result_of a (ray_cell s a k))"
    using raycast_by_march [of s a "(ray_cell s a k)\<lparr>hit := 1\<rparr>"]
      raycast_by_march [of s a "ray_cell s a k"]
    by (auto simp: res_hit)
  have pr: "map fst (ray_result_props (ray_result_of a (ray_cell s a k)))
      = [''dist'', ''side'', ''mapX'', ''mapY'']"
    by (simp add: ray_result_props_def)
  from k before fin r pr ray_cell_hit [of s a k]
  show "\<exists>k. 1 \<le> k \<and> k \<le> 128
      \<and> (\<forall>j. 1 \<le> j \<and> j < k \<longrightarrow>
            isWall (grid s) (of_int (mapX (ray_cell s a j))) (of_int (mapY (ray_cell s a j))) = Inr False)
      \<and> (isWall (grid s) (of_int (mapX (ray_cell s a k))) (of_int (mapY (ray_cell s a k))) = Inr True
            \<and> raycast_march s a = Inr ((ray_cell s a k)\<lparr>hit := 1\<rparr>)
          \<or> k = 128
            \<and> isWall (grid s) (of_int (mapX (ray_cell s a k))) (of_int (mapY (ray_cell s a k))) = Inr False
            \<and> raycast_march s a = Inr (ray_cell s a k) \<and> hit (ray_cell s a k) = 0)
      \<and> raycast s a = Inr (ray_result_of a (ray_cell s a k))
      \<and> map fst (ray_result_props (ray_result_of a (ray_cell s a k)))
            = [''dist'', ''side'', ''mapX'', ''mapY'']"
    by (intro exI [of _ k]) blast
next
  assume w: "isWall (grid s) (of_int (mapX (ray_cell s a 1))) (of_int (mapY (ray_cell s a 1))) = Inr True"
  have "raycast_march s a = Inr ((ray_cell s a 1)\<lparr>hit := 1\<rparr>)"
    by (rule raycast_first_wall [OF _ _ _ w]) simp_all
  from raycast_by_march [OF this]
  show "raycast s a = Inr (ray_result_of a (ray_cell s a 1))"
    by (simp add: ray_result_of_def)
  from ray_first_dist [of a s]
  show "res_dist (ray_result_of a (ray_cell s a 1))
             = min (sideDistX (ray_init s a)) (sideDistY (ray_init s a))"
    and "0 \<le> res_dist (ray_result_of a (ray_cell s a 1))"
    and "res_dist (ray_result_of a (ray_cell s a 1)) \<le> 2"
    by blast+
next
  assume h: "a = 0
        \<and> of_int \<lfloor>xpos (player s)\<rfloor> + 1 - xpos (player s)
              < (of_int \<lfloor>ypos (player s)\<rfloor> + 1 - ypos (player s)) * 10 ^ 9
        \<and> isWall (grid s) (of_int (\<lfloor>xpos (player s)\<rfloor> + 1)) (of_int \<lfloor>ypos (player s)\<rfloor>) = Inr True"
  then have a: "a = 0" by simp
  from h raycast_east_adjacent [of s]
  show "raycast s a = Inr \<lparr>res_dist = of_int \<lfloor>xpos (player s)\<rfloor> + 1 - xpos (player s),
          res_side = 0, res_mapX = \<lfloor>xpos (player s)\<rfloor> + 1, res_mapY = \<lfloor>ypos (player s)\<rfloor>\<rparr>"
    unfolding a by blast
qed

text \<open>
  Three rays at angle 0 from (1.5, 1.5): a wall in the next cell (distance 0.5); a wall
  four cells on, behind three floor cells (distance 3.5); no wall within 128 cells
  (the cell of step 128 is returned, a floor cell, with the flag \<open>hit\<close> at 0).
\<close>

theorem raycast_bounded_march_witness:
  "xpos (player ray_game) = 1.5 \<and> ypos (player ray_game) = 1.5
   \<and> isWall (grid ray_game) 2 1.5 = Inr True \<and> isWall (grid ray_game) 2 1 = Inr True
   \<and> isWall (grid ray_game) (of_int (mapX (ray_cell ray_game 0 1)))
        (of_int (mapY (ray_cell ray_game 0 1))) = Inr True
   \<and> raycast ray_game 0 = Inr \<lparr>res_dist = 0.5, res_side = 0, res_mapX = 2, res_mapY = 1\<rparr>
   \<and> res_dist (ray_result_of 0 (ray_cell ray_game 0 1)) \<le> 2
   \<and> isWall (grid hall_game) 2 1 = Inr False \<and> isWall (grid hall_game) 3 1 = Inr False
   \<and> isWall (grid hall_game) 4 1 = Inr False \<and> isWall (grid hall_game) 5 1 = Inr True
   \<and> raycast hall_game 0 = Inr \<lparr>res_dist = 3.5, res_side = 0, res_mapX = 5, res_mapY = 1\<rparr>
   \<and> isWall (grid long_game) 129 1 = Inr False
   \<and> raycast long_game 0 = Inr \<lparr>res_dist = 127.5, res_side = 0, res_mapX = 129, res_mapY = 1\<rparr>
   \<and> (\<exists>st. raycast_march long_game 0 = Inr st \<and> hit st = 0)"
proof -
  from raycast_bounded_march [of ray_game 0] ray_game_first_cell raycast_ray_game
  have a: "raycast ray_game 0 = Inr \<lparr>res_dist = 0.5, res_side = 0, res_mapX = 2, res_mapY = 1\<rparr>"
    and b: "res_dist (ray_result_of 0 (ray_cell ray_game 0 1)) \<le> 2"
    by simp_all
  have c: "isWall (grid long_game) 129 1 = Inr False"
    using long_hall_cells [of 129] by (simp add: long_game_fields)
  from raycast_long have d: "raycast long_game 0
        = Inr \<lparr>res_dist = 127.5, res_side = 0, res_mapX = 129, res_mapY = 1\<rparr>"
    and e: "\<exists>st. raycast_march long_game 0 = Inr st \<and> hit st = 0"
    by simp_all
  from raycast_hall have h: "raycast hall_game 0
        = Inr \<lparr>res_dist = 3.5, res_side = 0, res_mapX = 5, res_mapY = 1\<rparr>"
    by simp
  have w: "isWall (grid ray_game) 2 1 = Inr True"
    by (simp add: ray_game_fields isWall_def row0_length_def cell_at_def Let_def)
  show ?thesis
    using a b c d e h w ray_game_first_cell ray_game_wall
    by (simp add: ray_game_fields(1,2) hall_game_fields hall_cells)
qed

text \<open>
  The ray into the adjacent wall returns an object without a property \<open>hit\<close>; and after
  the steps are exhausted the loop's own flag is 0, on a cell that is no wall.
\<close>

theorem raycast_no_hit_counterexample:
  "(\<exists>r. xpos (player ray_game) = 1.5 \<and> ypos (player ray_game) = 1.5
        \<and> isWall (grid ray_game) 2 1.5 = Inr True
        \<and> raycast ray_game 0 = Inr r
        \<and> map fst (ray_result_props r) = [''dist'', ''side'', ''mapX'', ''mapY'']
        \<and> map_of (ray_result_props r) ''hit'' = None)
   \<and> (\<exists>st. raycast_march long_game 0 = Inr st \<and> hit st = 0
        \<and> isWall (grid long_game) (of_int (mapX st)) (of_int (mapY st)) = Inr False)"
proof
  show "\<exists>r. xpos (player ray_game) = 1.5 \<and> ypos (player ray_game) = 1.5
        \<and> isWall (grid ray_game) 2 1.5 = Inr True
        \<and> raycast ray_game 0 = Inr r
        \<and> map fst (ray_result_props r) = [''dist'', ''side'', ''mapX'', ''mapY'']
        \<and> map_of (ray_result_props r) ''hit'' = None"
    using raycast_ray_game ray_game_wall
    by (simp add: ray_game_fields(1,2) ray_result_props_def)
next
  have p: "xpos (player long_game) = 3 / 2" "ypos (player long_game) = 3 / 2"
    by (simp_all add: long_game_fields)
  have "isWall (grid long_game) (of_int (mapX (ray_cell long_game 0 128)))
      (of_int (mapY (ray_cell long_game 0 128))) = Inr False"
    using long_hall_cells [of 129] by (simp add: ray_cell_east [OF p, of 128] long_game_fields)
  with raycast_long
  show "\<exists>st. raycast_march long_game 0 = Inr st \<and> hit st = 0
        \<and> isWall (grid long_game) (of_int (mapX st)) (of_int (mapY st)) = Inr False"
    by simp
qed

subsection \<open>Maze generator\<close>

lemma bit_length_bounds: "0 < n \<Longrightarrow> 2 ^ (bit_length n - 1) \<le> n \<and> n < 2 ^ bit_length n"
proof (induction n rule: bit_length.induct)
  case (1 n)
  show ?case
  proof (cases "n div 2 = 0")
    case True
    with "1.prems" have "n = 1" by presburger
    then have "bit_length n = 1"
      by (simp add: bit_length.simps [of "Suc 0"] bit_length.simps [of 0])
    with \<open>n = 1\<close> show ?thesis by simp
  next
    case False
    then have pos: "0 < n div 2" by simp
    from "1.prems" have n0: "n \<noteq> 0" by simp
    from "1.IH" [OF n0 pos] have lo: "2 ^ (bit_length (n div 2) - 1) \<le> n div 2"
      and hi: "n div 2 < 2 ^ bit_length (n div 2)" by simp_all
    have bl: "bit_length n = Suc (bit_length (n div 2))"
      using n0 by (subst bit_length.simps) simp
    have blpos: "0 < bit_length (n div 2)"
      using pos by (subst bit_length.simps) simp
    have "2 ^ (bit_length n - 1) = 2 * 2 ^ (bit_length (n div 2) - 1)"
      using blpos by (simp add: bl flip: power_Suc)
    also have "\<dots> \<le> 2 * (n div 2)" using lo by simp
    also have "\<dots> \<le> n" by simp
    finally have a: "2 ^ (bit_length n - 1) \<le> n" .
    have "n < 2 * (n div 2) + 2" by presburger
    also have "\<dots> \<le> 2 * 2 ^ bit_length (n div 2)" using hi by simp
    also have "\<dots> = 2 ^ bit_length n" by (simp add: bl)
    finally have b: "n < 2 ^ bit_length n" .
    from a b show ?thesis by blast
  qed
qed

lemma fl_upper: "fl n \<le> n + n div 2 ^ 52"
proof (cases "n < 2 ^ 53")
  case True
  then show ?thesis by (simp add: fl_def)
next
  case False
  define e where "e = bit_length n - 53"
  from False have npos: "0 < n" by simp
  from bit_length_bounds [OF npos] have lo: "2 ^ (bit_length n - 1) \<le> n" and hi: "n < 2 ^ bit_length n"
    by simp_all
  have "(2::nat) ^ 53 < 2 ^ bit_length n" using False hi by linarith
  then have bl: "53 < bit_length n"
    by (rule power_less_imp_less_exp [rotated]) simp
  then have be: "bit_length n - 1 = e + 52" by (simp add: e_def)
  have "fl n \<le> (n div 2 ^ e + 1) * 2 ^ e"
    using False by (auto simp: fl_def Let_def e_def)
  also have "\<dots> = (n div 2 ^ e) * 2 ^ e + 2 ^ e" by (simp add: algebra_simps)
  also have "\<dots> \<le> n + 2 ^ e" by simp
  finally have 1: "fl n \<le> n + 2 ^ e" .
  from lo have "(2::nat) ^ (e + 52) \<le> n" by (simp only: be)
  then have "(2::nat) ^ e * 2 ^ 52 \<le> n" by (simp only: power_add)
  then have "2 ^ e \<le> n div 2 ^ 52"
    by (simp add: less_eq_div_iff_mult_less_eq)
  with 1 show ?thesis by linarith
qed

lemma rand_below_range:
  assumes "0 < k"
  shows "0 \<le> rand_below u k \<and> rand_below u k < k"
proof -
  define m where "m = unat u * nat k"
  have u: "unat u < 2 ^ 32" using unsigned_less [of u, where 'a = nat] by simp
  have um: "uint u * k = int m" using assms by (simp add: m_def)
  then have r: "rand_below u k = int (fl m) div 2 ^ 32"
    by (simp add: rand_below_def fl_int_def)
  have m_le: "m + nat k \<le> nat k * 2 ^ 32"
  proof -
    have "unat u + 1 \<le> 2 ^ 32" using u by simp
    then have "(unat u + 1) * nat k \<le> 2 ^ 32 * nat k" by (rule mult_le_mono1)
    then show ?thesis by (simp add: m_def algebra_simps)
  qed
  have "m div 2 ^ 52 < nat k"
  proof -
    have "m < nat k * 2 ^ 32" using m_le assms by linarith
    also have "\<dots> \<le> nat k * 2 ^ 52" by simp
    finally show ?thesis by (simp add: less_mult_imp_div_less)
  qed
  with fl_upper [of m] m_le have "fl m < nat k * 2 ^ 32" by linarith
  then have "fl m div 2 ^ 32 < nat k" by (simp add: less_mult_imp_div_less)
  then have "int (fl m div 2 ^ 32) < int (nat k)" by (simp only: of_nat_less_iff)
  moreover have "int (nat k) = k" using assms by simp
  moreover have "int (fl m) div 2 ^ 32 = int (fl m div 2 ^ 32)" by (simp add: zdiv_int)
  ultimately have "int (fl m) div 2 ^ 32 < k" by simp
  moreover have "0 \<le> int (fl m) div (2 ^ 32 :: int)" by (simp add: pos_imp_zdiv_nonneg_iff)
  ultimately show ?thesis by (simp add: r)
qed

lemma cell_at_dims:
  assumes "dims w h g" "0 \<le> y" "y < h"
  shows "cell_at g y x = Inr (if 0 \<le> x \<and> x < w then Some (g ! nat y ! nat x) else None)"
  using assms by (auto simp: dims_def cell_at_def Let_def)

lemma set_cell_dims:
  assumes d: "dims w h g" and y: "0 \<le> y" "y < h" and x: "0 \<le> x" "x < w"
  shows "\<exists>g'. set_cell g y x v = Inr g' \<and> dims w h g'
           \<and> (\<forall>y' x'. cell_at g' y' x' = (if y' = y \<and> x' = x then Inr (Some v) else cell_at g y' x'))"
proof -
  from d y have len: "nat y < length g" "int (length g) = h" by (auto simp: dims_def)
  with d have rlen: "int (length (g ! nat y)) = w" by (simp add: dims_def)
  define g' where "g' = g[nat y := (g ! nat y)[nat x := v]]"
  have s: "set_cell g y x v = Inr g'"
    using y x len rlen by (simp add: set_cell_def Let_def g'_def)
  have d': "dims w h g'"
    using d len rlen by (auto simp: dims_def g'_def nth_list_update)
  have c: "cell_at g' y' x' = (if y' = y \<and> x' = x then Inr (Some v) else cell_at g y' x')" for y' x'
  proof (cases "0 \<le> y' \<and> y' < h")
    case False
    then show ?thesis using len y by (auto simp: cell_at_def g'_def)
  next
    case True
    then have 1: "cell_at g' y' x' = Inr (if 0 \<le> x' \<and> x' < w then Some (g' ! nat y' ! nat x') else None)"
      using cell_at_dims [OF d'] by simp
    from True have 2: "cell_at g y' x' = Inr (if 0 \<le> x' \<and> x' < w then Some (g ! nat y' ! nat x') else None)"
      using cell_at_dims [OF d] by simp
    from True len have ly': "nat y' < length g" by linarith
    show ?thesis
    proof (cases "y' = y")
      case False
      with True y have "nat y' \<noteq> nat y" by linarith
      then show ?thesis using False 1 2 by (simp add: g'_def)
    next
      case yy: True
      show ?thesis
      proof (cases "x' = x")
        case True
        have "nat x < length (g ! nat y)" using x rlen by linarith
        then have "g' ! nat y ! nat x = v" using len by (simp add: g'_def)
        with 1 yy True x show ?thesis by simp
      next
        case False
        have "g' ! nat y ! nat x' = g ! nat y ! nat x'" if "0 \<le> x'"
        proof -
          from that False x have "nat x' \<noteq> nat x" by linarith
          then show ?thesis using len by (simp add: g'_def)
        qed
        with 1 2 yy False show ?thesis by auto
      qed
    qed
  qed
  from s d' c show ?thesis by blast
qed

lemma reach_mono:
  assumes "\<And>p. is_floor g p \<Longrightarrow> is_floor g' p" and "reach g a b"
  shows "reach g' a b"
proof -
  have "floor_step g \<le> floor_step g'"
    using assms(1) by (auto simp: floor_step_def)
  from rtranclp_mono [OF this] assms(2) show ?thesis
    unfolding reach_def by blast
qed

lemma reach_step:
  assumes "reach g a p" "is_floor g p" "is_floor g q" "adjacent p q"
  shows "reach g a q"
proof -
  from assms(2-4) have "floor_step g p q" by (simp add: floor_step_def)
  with assms(1) show ?thesis unfolding reach_def by (rule rtranclp.rtrancl_into_rtrancl)
qed

lemma adjacent_sym: "adjacent p q \<Longrightarrow> adjacent q p"
  by (auto simp: adjacent_def)

lemma reach_sym: "reach g a b \<Longrightarrow> reach g b a"
  unfolding reach_def
proof (induction rule: rtranclp_induct)
  case base
  show ?case by simp
next
  case (step y z)
  from step.hyps(2) have "floor_step g z y"
    by (auto simp: floor_step_def adjacent_sym)
  then show ?case using step.IH by (rule converse_rtranclp_into_rtranclp)
qed

lemma reach_trans: "reach g a b \<Longrightarrow> reach g b c \<Longrightarrow> reach g a c"
  unfolding reach_def by (rule rtranclp_trans)

lemma candidates_of_total:
  assumes "dims w h g"
  shows "\<exists>cs. candidates_of w h g cur ds = Inr cs"
proof (induction ds)
  case Nil
  show ?case by simp
next
  case (Cons d ds)
  then obtain rest where rest: "candidates_of w h g cur ds = Inr rest" by blast
  show ?case
  proof (cases "fst cur + fst d \<le> 0 \<or> snd cur + snd d \<le> 0 \<or> fst cur + fst d \<ge> w - 1 \<or> snd cur + snd d \<ge> h - 1")
    case True
    then show ?thesis using rest by (simp add: Let_def)
  next
    case False
    then have "0 \<le> snd cur + snd d" "snd cur + snd d < h" by simp_all
    from cell_at_dims [OF assms this] obtain c where "cell_at g (snd cur + snd d) (fst cur + fst d) = Inr c"
      by blast
    then show ?thesis using False rest by (simp add: Let_def)
  qed
qed

lemma set_floor_reach:
  assumes d: "dims w h g" and y: "0 \<le> y" "y < h" and x: "0 \<le> x" "x < w"
    and inv: "\<And>p. is_floor g p \<Longrightarrow> reach g a p"
    and nb: "is_floor g q" "adjacent q (x, y)"
  shows "\<exists>g'. set_cell g y x 0 = Inr g' \<and> dims w h g' \<and> is_floor g' (x, y)
           \<and> (\<forall>p. is_floor g p \<longrightarrow> is_floor g' p)
           \<and> (\<forall>p. is_floor g' p \<longrightarrow> reach g' a p)"
proof -
  from set_cell_dims [OF d y x, of 0] obtain g' where s: "set_cell g y x 0 = Inr g'"
    and d': "dims w h g'"
    and c: "\<And>y' x'. cell_at g' y' x' = (if y' = y \<and> x' = x then Inr (Some 0) else cell_at g y' x')"
    by blast
  have fl: "is_floor g' p \<longleftrightarrow> p = (x, y) \<or> is_floor g p" for p
    by (cases p) (auto simp: is_floor_def c)
  have mono: "\<And>p. is_floor g p \<Longrightarrow> is_floor g' p" by (simp add: fl)
  have new: "reach g' a (x, y)"
  proof -
    from inv [OF nb(1)] have "reach g' a q" using mono by (rule reach_mono [rotated])
    then show ?thesis using nb mono fl by (intro reach_step [of g' a q "(x, y)"]) auto
  qed
  have all: "is_floor g' p \<Longrightarrow> reach g' a p" for p
  proof -
    assume "is_floor g' p"
    then consider "p = (x, y)" | "is_floor g p" using fl by blast
    then show ?thesis
    proof cases
      case 1
      then show ?thesis using new by simp
    next
      case 2
      from inv [OF 2] show ?thesis using mono by (rule reach_mono [rotated])
    qed
  qed
  from s d' fl mono all show ?thesis by blast
qed

lemma dirs_between:
  assumes "d \<in> set dirs" and "0 < cx" "cx < w - 1" "0 < cy" "cy < h - 1"
    and "0 < cx + fst d" "cx + fst d < w - 1" "0 < cy + snd d" "cy + snd d < h - 1"
  shows "0 \<le> cx + fst d div 2 \<and> cx + fst d div 2 < w \<and> 0 \<le> cy + snd d div 2 \<and> cy + snd d div 2 < h
       \<and> adjacent (cx, cy) (cx + fst d div 2, cy + snd d div 2)
       \<and> adjacent (cx + fst d div 2, cy + snd d div 2) (cx + fst d, cy + snd d)"
  using assms by (auto simp: dirs_def adjacent_def)

lemma carve_pick_inv:
  assumes d: "dims w h g" and cur: "interior w h cur" "is_floor g cur"
    and inv: "\<And>p. is_floor g p \<Longrightarrow> reach g a p"
  shows "carve_pick w h t g cur = Inr None
       \<or> (\<exists>t' g2 n. carve_pick w h t g cur = Inr (Some (t', g2, n)) \<and> dims w h g2
            \<and> interior w h n \<and> is_floor g2 n
            \<and> (\<forall>p. is_floor g p \<longrightarrow> is_floor g2 p)
            \<and> (\<forall>p. is_floor g2 p \<longrightarrow> reach g2 a p))"
proof -
  obtain cs where cs: "candidates_of w h g cur dirs = Inr cs"
    using candidates_of_total [OF d] by blast
  show ?thesis
  proof (cases "cs = []")
    case True
    then show ?thesis using cs by (simp add: carve_pick_def)
  next
    case False
    obtain t' u where r: "rng_next t = (t', u)" by (cases "rng_next t")
    define k where "k = rand_below u (int (length cs))"
    from False have "0 < int (length cs)" by simp
    from rand_below_range [OF this, of u] have k: "0 \<le> k" "k < int (length cs)" by (simp_all add: k_def)
    obtain nx ny wx wy where c: "cs ! nat k = (nx, ny, wx, wy)" by (cases "cs ! nat k")
    with k have pick: "nth_opt cs k = Some (nx, ny, wx, wy)" by (simp add: nth_opt_def)
    from candidates_of_pick [OF cs pick] obtain dd where c1: "cell_at g ny nx = Inr (Some 1)"
      and n: "0 < nx" "nx < w - 1" "0 < ny" "ny < h - 1"
      and dd: "dd \<in> set dirs" "nx = fst cur + fst dd" "ny = snd cur + snd dd"
        "wx = fst cur + fst dd div 2" "wy = snd cur + snd dd div 2"
      by blast
    from cur(1) have ci: "0 < fst cur" "fst cur < w - 1" "0 < snd cur" "snd cur < h - 1"
      by (simp_all add: interior_def)
    from dirs_between [OF dd(1) ci] n dd
    have wr: "0 \<le> wx" "wx < w" "0 \<le> wy" "wy < h"
      and a1: "adjacent cur (wx, wy)" and a2: "adjacent (wx, wy) (nx, ny)"
      by simp_all
    from set_floor_reach [OF d wr(3,4) wr(1,2) inv cur(2) a1]
    obtain g1 where g1: "set_cell g wy wx 0 = Inr g1" and d1: "dims w h g1"
      and f1: "is_floor g1 (wx, wy)" and m1: "\<And>p. is_floor g p \<Longrightarrow> is_floor g1 p"
      and i1: "\<And>p. is_floor g1 p \<Longrightarrow> reach g1 a p"
      by blast
    from n have nr: "0 \<le> ny" "ny < h" "0 \<le> nx" "nx < w" by simp_all
    from set_floor_reach [OF d1 nr i1 f1 a2]
    obtain g2 where g2: "set_cell g1 ny nx 0 = Inr g2" and d2: "dims w h g2"
      and f2: "is_floor g2 (nx, ny)" and m2: "\<And>p. is_floor g1 p \<Longrightarrow> is_floor g2 p"
      and i2: "\<And>p. is_floor g2 p \<Longrightarrow> reach g2 a p"
      by blast
    have "carve_pick w h t g cur = Inr (Some (t', g2, (nx, ny)))"
      using cs False r pick g1 g2 by (simp add: carve_pick_def k_def)
    moreover have "interior w h (nx, ny)" using n by (simp add: interior_def)
    ultimately show ?thesis using d2 f2 m1 m2 i2 by blast
  qed
qed

lemma carve_inv:
  "dims w h g \<Longrightarrow> (\<forall>c \<in> set stack. interior w h c \<and> is_floor g c)
   \<Longrightarrow> (\<forall>p. is_floor g p \<longrightarrow> reach g a p)
   \<Longrightarrow> \<exists>g' t'. carve w h t g stack = Inr (g', t') \<and> dims w h g'
         \<and> (\<forall>p. is_floor g p \<longrightarrow> is_floor g' p)
         \<and> (\<forall>p. is_floor g' p \<longrightarrow> reach g' a p)"
proof (induction w h t g stack rule: carve.induct)
  case (1 w h t g)
  then show ?case by simp
next
  case (2 w h t g cur stack)
  from "2.prems"(2) have cur: "interior w h cur" "is_floor g cur" by simp_all
  from "2.prems"(3) have inv: "\<And>p. is_floor g p \<Longrightarrow> reach g a p" by blast
  from carve_pick_inv [OF "2.prems"(1) cur inv, of t]
  show ?case
  proof
    assume none: "carve_pick w h t g cur = Inr None"
    from "2.prems"(2) have st: "\<forall>c \<in> set stack. interior w h c \<and> is_floor g c" by simp
    from "2.IH"(1) [OF none refl "2.prems"(1) st "2.prems"(3)]
    show ?thesis using none by simp
  next
    assume "\<exists>t' g2 n. carve_pick w h t g cur = Inr (Some (t', g2, n)) \<and> dims w h g2
            \<and> interior w h n \<and> is_floor g2 n
            \<and> (\<forall>p. is_floor g p \<longrightarrow> is_floor g2 p)
            \<and> (\<forall>p. is_floor g2 p \<longrightarrow> reach g2 a p)"
    then obtain t' g2 n where some: "carve_pick w h t g cur = Inr (Some (t', g2, n))"
      and d2: "dims w h g2" and n: "interior w h n" "is_floor g2 n"
      and mono: "\<forall>p. is_floor g p \<longrightarrow> is_floor g2 p"
      and i2: "\<forall>p. is_floor g2 p \<longrightarrow> reach g2 a p"
      by blast
    from "2.prems"(2) mono n have st: "\<forall>c \<in> set (n # cur # stack). interior w h c \<and> is_floor g2 c"
      by (auto simp del: split_paired_All)
    from "2.IH"(2) [OF some refl refl refl d2 st i2]
    obtain g' t'' where "carve w h t' g2 (n # cur # stack) = Inr (g', t'')" "dims w h g'"
      "\<forall>p. is_floor g2 p \<longrightarrow> is_floor g' p" "\<forall>p. is_floor g' p \<longrightarrow> reach g' a p"
      by blast
    then show ?thesis using some mono by auto
  qed
qed

lemma loop_pass_inv:
  assumes w: "3 \<le> w" and h: "3 \<le> h"
  shows "dims w h g \<Longrightarrow> (\<forall>p. is_floor g p \<longrightarrow> reach g a p)
   \<Longrightarrow> \<exists>g' t'. loop_pass n w h t g = Inr (g', t') \<and> dims w h g'
         \<and> (\<forall>p. is_floor g p \<longrightarrow> is_floor g' p)
         \<and> (\<forall>p. is_floor g' p \<longrightarrow> reach g' a p)"
proof (induction n arbitrary: t g)
  case 0
  then show ?case by simp
next
  case (Suc n)
  note d = Suc.prems(1)
  from Suc.prems(2) have inv: "\<And>p. is_floor g p \<Longrightarrow> reach g a p" by blast
  obtain t1 u1 where r1: "rng_next t = (t1, u1)" by (cases "rng_next t")
  obtain t2 u2 where r2: "rng_next t1 = (t2, u2)" by (cases "rng_next t1")
  define x where "x = 1 + rand_below u1 (w - 2)"
  define y where "y = 1 + rand_below u2 (h - 2)"
  from w rand_below_range [of "w - 2" u1] have xr: "1 \<le> x" "x \<le> w - 2" by (simp_all add: x_def)
  from h rand_below_range [of "h - 2" u2] have yr: "1 \<le> y" "y \<le> h - 2" by (simp_all add: y_def)
  from yr have y0: "0 \<le> y" "y < h" and ym: "0 \<le> y - 1" "y - 1 < h" and yp: "0 \<le> y + 1" "y + 1 < h"
    by simp_all
  from xr have x0: "0 \<le> x" "x < w" by simp_all
  obtain c where c: "cell_at g y x = Inr c" using cell_at_dims [OF d y0] by blast
  obtain up where up: "cell_at g (y - 1) x = Inr up" using cell_at_dims [OF d ym] by blast
  obtain down where down: "cell_at g (y + 1) x = Inr down" using cell_at_dims [OF d yp] by blast
  obtain left where left: "cell_at g y (x - 1) = Inr left" using cell_at_dims [OF d y0] by blast
  obtain right where right: "cell_at g y (x + 1) = Inr right" using cell_at_dims [OF d y0] by blast
  show ?case
  proof (cases "c = Some 1 \<and> is0 up + is0 down + is0 left + is0 right \<ge> 2")
    case False
    then have "loop_pass (Suc n) w h t g = loop_pass n w h t2 g"
      using r1 r2 c up down left right by (auto simp: Let_def x_def y_def)
    with Suc.IH [OF Suc.prems, of t2] show ?thesis by simp
  next
    case True
    then have "up = Some 0 \<or> down = Some 0 \<or> left = Some 0 \<or> right = Some 0"
      by (auto simp: is0_def split: if_splits)
    then obtain q where q: "is_floor g q" "adjacent q (x, y)"
    proof (elim disjE)
      assume "up = Some 0"
      with up have "is_floor g (x, y - 1)" "adjacent (x, y - 1) (x, y)"
        by (simp_all add: is_floor_def adjacent_def)
      then show ?thesis by (rule that)
    next
      assume "down = Some 0"
      with down have "is_floor g (x, y + 1)" "adjacent (x, y + 1) (x, y)"
        by (simp_all add: is_floor_def adjacent_def)
      then show ?thesis by (rule that)
    next
      assume "left = Some 0"
      with left have "is_floor g (x - 1, y)" "adjacent (x - 1, y) (x, y)"
        by (simp_all add: is_floor_def adjacent_def)
      then show ?thesis by (rule that)
    next
      assume "right = Some 0"
      with right have "is_floor g (x + 1, y)" "adjacent (x + 1, y) (x, y)"
        by (simp_all add: is_floor_def adjacent_def)
      then show ?thesis by (rule that)
    qed
    from set_floor_reach [OF d y0 x0 inv q]
    obtain g1 where g1: "set_cell g y x 0 = Inr g1" and d1: "dims w h g1"
      and m1: "\<forall>p. is_floor g p \<longrightarrow> is_floor g1 p"
      and i1: "\<forall>p. is_floor g1 p \<longrightarrow> reach g1 a p"
      by blast
    have "loop_pass (Suc n) w h t g = loop_pass n w h t2 g1"
      using True r1 r2 c up down left right g1 by (auto simp: Let_def x_def y_def)
    with Suc.IH [OF d1 i1, of t2] m1 show ?thesis by auto
  qed
qed

lemma new_grid_dims: "0 \<le> w \<Longrightarrow> 0 \<le> h \<Longrightarrow> dims w h (new_grid w h)"
  by (simp add: dims_def new_grid_def)

lemma new_grid_no_floor: "\<not> is_floor (new_grid w h) p"
proof
  assume "is_floor (new_grid w h) p"
  then have y: "0 \<le> snd p" "nat (snd p) < nat h" and x: "0 \<le> fst p"
    and xl: "fst p < int (length (new_grid w h ! nat (snd p)))"
    and c: "new_grid w h ! nat (snd p) ! nat (fst p) = 0"
    by (auto simp: is_floor_def cell_at_def new_grid_def Let_def split: if_splits)
  from y have r: "new_grid w h ! nat (snd p) = replicate (nat w) 1" by (simp add: new_grid_def)
  from xl x have "nat (fst p) < nat w" by (auto simp: r split: if_splits)
  with c r show False by simp
qed

lemma makeMaze_connected:
  assumes w: "3 \<le> w" and h: "3 \<le> h"
  shows "\<exists>g. makeMaze w h sd = Inr (g, sd) \<and> dims w h g \<and> is_floor g (1, 1)
           \<and> (\<forall>p q. is_floor g p \<longrightarrow> is_floor g q \<longrightarrow> reach g p q)"
proof -
  from w h have d0: "dims w h (new_grid w h)" by (simp add: new_grid_dims)
  from set_cell_dims [OF d0, of 1 1 0] w h
  obtain g1 where g1: "set_cell (new_grid w h) 1 1 0 = Inr g1" and d1: "dims w h g1"
    and c1: "\<And>y' x'. cell_at g1 y' x' = (if y' = 1 \<and> x' = 1 then Inr (Some 0) else cell_at (new_grid w h) y' x')"
    by auto
  have f1: "is_floor g1 p \<longleftrightarrow> p = (1, 1)" for p
    using new_grid_no_floor [of w h p] by (cases p) (auto simp: is_floor_def c1)
  have i1: "\<forall>p. is_floor g1 p \<longrightarrow> reach g1 (1, 1) p" by (simp add: f1 reach_def)
  have st: "\<forall>c \<in> set [(1, 1)]. interior w h c \<and> is_floor g1 c"
    using w h by (simp add: f1 interior_def)
  from carve_inv [OF d1 st i1, of "rng_seed sd"]
  obtain g2 t where g2: "carve w h (rng_seed sd) g1 [(1, 1)] = Inr (g2, t)" and d2: "dims w h g2"
    and m2: "\<forall>p. is_floor g1 p \<longrightarrow> is_floor g2 p" and i2: "\<forall>p. is_floor g2 p \<longrightarrow> reach g2 (1, 1) p"
    by blast
  from loop_pass_inv [OF w h d2 i2, of "loop_count w h" t]
  obtain g3 t' where g3: "loop_pass (loop_count w h) w h t g2 = Inr (g3, t')" and d3: "dims w h g3"
    and m3: "\<forall>p. is_floor g2 p \<longrightarrow> is_floor g3 p" and i3: "\<forall>p. is_floor g3 p \<longrightarrow> reach g3 (1, 1) p"
    by blast
  have mk: "makeMaze w h sd = Inr (g3, sd)"
    by (simp add: makeMaze_def g1 g2 g3 del: carve.simps)
  have "is_floor g3 (1, 1)" using f1 m2 m3 by blast
  moreover have "reach g3 p q" if "is_floor g3 p" "is_floor g3 q" for p q
  proof -
    from i3 that have "reach g3 (1, 1) p" "reach g3 (1, 1) q" by blast+
    then show ?thesis using reach_sym reach_trans by blast
  qed
  ultimately show ?thesis using mk d3 by blast
qed



text \<open>
  C2. Two runs of \<open>makeMaze\<close> with the same width, height and seed return the same
  result, whatever the clock of each run (the only input of \<open>makeMaze\<close> besides its
  arguments, read for an omitted seed only), and the seed returned is the seed given.
\<close>

theorem makeMaze_deterministic:
  "makeMaze_call clock1 w h (Some sd) = makeMaze_call clock2 w h (Some sd)
   \<and> (\<forall>g e. makeMaze_call clock1 w h (Some sd) = Inr (g, e) \<longrightarrow> e = sd)"
  by (auto simp: makeMaze_call_def makeMaze_def split: sum.splits prod.splits)

theorem makeMaze_deterministic_witness:
  "makeMaze_call 1000 5 5 (Some 1) = makeMaze_call 2000 5 5 (Some 1)
   \<and> (\<exists>g. makeMaze_call 1000 5 5 (Some 1) = Inr (g, 1))"
proof -
  from makeMaze_connected [of 5 5 1] obtain g where g: "makeMaze 5 5 1 = Inr (g, 1)" by auto
  then have "makeMaze_call 1000 5 5 (Some 1) = Inr (g, 1)" by (simp add: makeMaze_call_def)
  with makeMaze_deterministic [of 1000 5 5 1 2000] show ?thesis by blast
qed

subsection \<open>Entity placement\<close>

declare findRandomFloor_loop.simps [simp del] place_enemy_loop.simps [simp del]

lemma same_cell_iff: "same_cell c ks \<longleftrightarrow> c \<in> set ks"
  by (induction ks) (auto simp: same_cell_def prod_eq_iff)

lemma place_keys_spec:
  assumes "place_keys s = Some r"
  shows "\<forall>s'. r = Inr s' \<longrightarrow> far_keys s \<longrightarrow> length (keyPos s) \<le> 3 \<longrightarrow>
           far_keys s' \<and> length (keyPos s') = 3 \<and> player s' = player s \<and> exitPos s' = exitPos s
           \<and> grid s' = grid s"
proof (rule place_keys.raw_induct [where P = "\<lambda>s r. \<forall>s'. r = Inr s' \<longrightarrow> far_keys s \<longrightarrow> length (keyPos s) \<le> 3 \<longrightarrow>
           far_keys s' \<and> length (keyPos s') = 3 \<and> player s' = player s \<and> exitPos s' = exitPos s
           \<and> grid s' = grid s", OF _ assms])
  fix place_keys' :: "game \<Rightarrow> (js_error + game) option" and s r
  assume IH: "\<And>x y. place_keys' x = Some y \<Longrightarrow> \<forall>s'. y = Inr s' \<longrightarrow> far_keys x \<longrightarrow> length (keyPos x) \<le> 3 \<longrightarrow>
           far_keys s' \<and> length (keyPos s') = 3 \<and> player s' = player x \<and> exitPos s' = exitPos x
           \<and> grid s' = grid x"
    and hyps: "(if length (keyPos s) < 3 then
        (case findRandomFloor (grid s) (R s) of
           Inl e \<Rightarrow> Some (Inl e)
         | Inr (k, t) \<Rightarrow>
             if dist_xy (cell_centre k) (player_pos s) < 8 then place_keys' (s\<lparr>R := t\<rparr>)
             else if same_cell k (keyPos s) then place_keys' (s\<lparr>R := t\<rparr>)
             else place_keys' (s\<lparr>R := t, keyPos := keyPos s @ [k]\<rparr>))
      else Some (Inr s)) = Some r"
  show "\<forall>s'. r = Inr s' \<longrightarrow> far_keys s \<longrightarrow> length (keyPos s) \<le> 3 \<longrightarrow>
           far_keys s' \<and> length (keyPos s') = 3 \<and> player s' = player s \<and> exitPos s' = exitPos s
           \<and> grid s' = grid s"
  proof (intro allI impI)
    fix s' assume r: "r = Inr s'" and fk: "far_keys s" and len: "length (keyPos s) \<le> 3"
    show "far_keys s' \<and> length (keyPos s') = 3 \<and> player s' = player s \<and> exitPos s' = exitPos s
           \<and> grid s' = grid s"
    proof (cases "length (keyPos s) < 3")
      case False
      with hyps r len show ?thesis using fk by simp
    next
      case True
      with hyps r obtain k t where f: "findRandomFloor (grid s) (R s) = Inr (k, t)"
        by (auto split: sum.splits)
      let ?s1 = "s\<lparr>R := t\<rparr>"
      let ?s2 = "s\<lparr>R := t, keyPos := keyPos s @ [k]\<rparr>"
      have fk1: "far_keys ?s1" using fk by (simp add: far_keys_def player_pos_def)
      consider (near) "dist_xy (cell_centre k) (player_pos s) < 8"
        | (dup) "\<not> dist_xy (cell_centre k) (player_pos s) < 8" "same_cell k (keyPos s)"
        | (push) "\<not> dist_xy (cell_centre k) (player_pos s) < 8" "\<not> same_cell k (keyPos s)"
        by blast
      then show ?thesis
      proof cases
        case near
        with hyps True f r have "place_keys' ?s1 = Some (Inr s')" by simp
        from IH [OF this] fk1 len show ?thesis by auto
      next
        case dup
        with hyps True f r have "place_keys' ?s1 = Some (Inr s')" by simp
        from IH [OF this] fk1 len show ?thesis by auto
      next
        case push
        with hyps True f r have c: "place_keys' ?s2 = Some (Inr s')" by simp
        have fk2: "far_keys ?s2"
          using fk push by (simp add: far_keys_def player_pos_def same_cell_iff)
        from IH [OF c] fk2 True show ?thesis by auto
      qed
    qed
  qed
qed

lemma place_exit_spec:
  assumes "place_exit s = Some r"
  shows "\<forall>s'. r = Inr s' \<longrightarrow> far_exit s' \<and> keyPos s' = keyPos s \<and> player s' = player s
           \<and> grid s' = grid s"
proof (rule place_exit.raw_induct [where P = "\<lambda>s r. \<forall>s'. r = Inr s' \<longrightarrow> far_exit s' \<and> keyPos s' = keyPos s \<and> player s' = player s
           \<and> grid s' = grid s", OF _ assms])
  fix place_exit' :: "game \<Rightarrow> (js_error + game) option" and s r
  assume IH: "\<And>x y. place_exit' x = Some y \<Longrightarrow> \<forall>s'. y = Inr s' \<longrightarrow> far_exit s' \<and> keyPos s' = keyPos x \<and> player s' = player x
           \<and> grid s' = grid x"
    and hyps: "(case findRandomFloor (grid s) (R s) of
        Inl e \<Rightarrow> Some (Inl e)
      | Inr (e, t) \<Rightarrow>
          if dist_xy (cell_centre e) (player_pos s) < 10 then place_exit' (s\<lparr>R := t\<rparr>)
          else if same_cell e (keyPos s) then place_exit' (s\<lparr>R := t\<rparr>)
          else Some (Inr (s\<lparr>R := t, exitPos := Some e\<rparr>))) = Some r"
  show "\<forall>s'. r = Inr s' \<longrightarrow> far_exit s' \<and> keyPos s' = keyPos s \<and> player s' = player s
           \<and> grid s' = grid s"
  proof (intro allI impI)
    fix s' assume r: "r = Inr s'"
    from hyps r obtain e t where f: "findRandomFloor (grid s) (R s) = Inr (e, t)"
      by (auto split: sum.splits)
    let ?s1 = "s\<lparr>R := t\<rparr>"
    consider (near) "dist_xy (cell_centre e) (player_pos s) < 10"
      | (dup) "\<not> dist_xy (cell_centre e) (player_pos s) < 10" "same_cell e (keyPos s)"
      | (take) "\<not> dist_xy (cell_centre e) (player_pos s) < 10" "\<not> same_cell e (keyPos s)"
      by blast
    then show "far_exit s' \<and> keyPos s' = keyPos s \<and> player s' = player s \<and> grid s' = grid s"
    proof cases
      case near
      with hyps f r have "place_exit' ?s1 = Some (Inr s')" by simp
      from IH [OF this] show ?thesis by auto
    next
      case dup
      with hyps f r have "place_exit' ?s1 = Some (Inr s')" by simp
      from IH [OF this] show ?thesis by auto
    next
      case take
      with hyps f r have "s' = s\<lparr>R := t, exitPos := Some e\<rparr>" by simp
      with take show ?thesis by (simp add: far_exit_def player_pos_def same_cell_iff)
    qed
  qed
qed

lemma place_enemy_frame:
  "place_enemy s = Inr s' \<Longrightarrow> keyPos s' = keyPos s \<and> exitPos s' = exitPos s \<and> player s' = player s"
  unfolding place_enemy_def
  by (auto split: sum.splits prod.splits option.splits)

lemma place_player_frame:
  "place_player s = Inr s' \<Longrightarrow> grid s' = grid s"
  unfolding place_player_def by (auto split: sum.splits prod.splits)

lemma placement_far:
  "(place_entities s = Some (Inr s') \<longrightarrow>
      length (keyPos s') = 3 \<and> far_keys s' \<and> far_exit s')
   \<and> (startNew s0 clock pnow = Some (Inr s') \<longrightarrow>
      length (keyPos s') = 3 \<and> far_keys s' \<and> far_exit s')"
proof -
  have pe: "length (keyPos s') = 3 \<and> far_keys s' \<and> far_exit s'"
    if h: "place_entities s = Some (Inr s')" for s s'
  proof -
    from h obtain s1 s2 s3 where p1: "place_player s = Inr s1"
      and p2: "place_keys (s1\<lparr>keys := 0, keyPos := []\<rparr>) = Some (Inr s2)"
      and p3: "place_exit s2 = Some (Inr s3)" and p4: "place_enemy s3 = Inr s'"
      unfolding place_entities_def by (auto split: sum.splits option.splits)
    from place_keys_spec [OF p2] have k: "far_keys s2" "length (keyPos s2) = 3"
      by (simp_all add: far_keys_def)
    from place_exit_spec [OF p3] have e: "far_exit s3" "keyPos s3 = keyPos s2" "player s3 = player s2"
      by simp_all
    from place_enemy_frame [OF p4] have f: "keyPos s' = keyPos s3" "exitPos s' = exitPos s3" "player s' = player s3"
      by simp_all
    from k e f show ?thesis by (auto simp: far_keys_def far_exit_def player_pos_def split: option.splits)
  qed
  have sn: "length (keyPos s') = 3 \<and> far_keys s' \<and> far_exit s'"
    if h: "startNew s0 clock pnow = Some (Inr s')"
  proof -
    from h obtain sa s4 where "place_entities sa = Some (Inr s4)"
      and s': "s' = s4\<lparr>ui := (ui s4)\<lparr>ui_keys := String_nat (keys s4),
                                            ui_status := ''Find keys'',
                                            ui_btnStart := ''none'',
                                            ui_btnRestart := ''none''\<rparr>,
                              lastT := pnow\<rparr>"
      unfolding startNew_def Let_def by (auto split: sum.splits option.splits prod.splits)
    from pe [OF this(1)] show ?thesis
      by (simp add: s' far_keys_def far_exit_def player_pos_def del: String_nat.simps cong: option.case_cong)
  qed
  from pe sn show ?thesis by blast
qed

lemma rng_skip_Suc: "rng_skip (Suc n) t = rng_skip n (fst (rng_next t))"
  by (simp add: rng_skip_def funpow_Suc_right del: funpow.simps)

lemma rng_skip_add: "rng_skip (a + b) t = rng_skip b (rng_skip a t)"
proof -
  have "rng_skip (b + a) t = rng_skip b (rng_skip a t)"
    by (simp add: rng_skip_def funpow_add)
  then show ?thesis by (simp add: add.commute)
qed

lemma findRandomFloor_loop_bound:
  "tries \<le> 10000 \<Longrightarrow> findRandomFloor_loop g w h tries t = Inr (p, t') \<Longrightarrow>
   \<exists>k. tries + k \<le> 10000 \<and> t' = rng_skip (2 * k) t
       \<and> (is_floor g p \<or> (tries + k = 10000 \<and> p = (1, 1)))"
proof (induction g w h tries t rule: findRandomFloor_loop.induct)
  case (1 g w h tries t)
  show ?case
  proof (cases "tries < 10000")
    case False
    with "1.prems" have "tries = 10000" by simp
    from "1.prems"(2) False have "p = (1, 1) \<and> t' = t"
      by (subst (asm) findRandomFloor_loop.simps) simp
    with \<open>tries = 10000\<close> show ?thesis by (intro exI [of _ 0]) (simp add: rng_skip_def)
  next
    case True
    obtain t1 u1 where r1: "rng_next t = (t1, u1)" by (cases "rng_next t")
    obtain t2 u2 where r2: "rng_next t1 = (t2, u2)" by (cases "rng_next t1")
    define x where "x = 1 + rand_below u1 (w - 2)"
    define y where "y = 1 + rand_below u2 (h - 2)"
    have sk: "rng_skip (2 * Suc k) t = rng_skip (2 * k) t2" for k
      using r1 r2 by (simp add: rng_skip_Suc)
    have unf: "findRandomFloor_loop g w h tries t =
        (case cell_at g y x of
           Inl e \<Rightarrow> Inl e
         | Inr c \<Rightarrow> if c = Some 0 then Inr ((x, y), t2)
                    else findRandomFloor_loop g w h (Suc tries) t2)"
      unfolding x_def y_def
      by (subst findRandomFloor_loop.simps) (simp add: True r1 r2 Let_def)
    from "1.prems"(2) obtain c where c: "cell_at g y x = Inr c"
      and res: "(if c = Some 0 then Inr ((x, y), t2) else findRandomFloor_loop g w h (Suc tries) t2) = Inr (p, t')"
      unfolding unf by (auto split: sum.splits)
    show ?thesis
    proof (cases "c = Some 0")
      case found: True
      with res have "p = (x, y)" "t' = t2" by simp_all
      with c found True sk [of 0] show ?thesis
        by (intro exI [of _ 1]) (simp add: is_floor_def rng_skip_def)
    next
      case False
      with res have rec: "findRandomFloor_loop g w h (Suc tries) t2 = Inr (p, t')" by simp
      from True have le: "Suc tries \<le> 10000" by simp
      from "1.IH" [OF True r1 [symmetric] r2 [symmetric] x_def y_def c False le rec]
      obtain k where "Suc tries + k \<le> 10000" "t' = rng_skip (2 * k) t2"
        "is_floor g p \<or> (Suc tries + k = 10000 \<and> p = (1, 1))"
        by blast
      then show ?thesis using sk [of k] by (intro exI [of _ "Suc k"]) auto
    qed
  qed
qed

lemma findRandomFloor_bound:
  assumes "findRandomFloor g t = Inr (p, t')"
  shows "\<exists>k \<le> 10000. t' = rng_skip (2 * k) t \<and> (is_floor g p \<or> (k = 10000 \<and> p = (1, 1)))"
proof -
  from assms obtain w where "findRandomFloor_loop g w (int (length g)) 0 t = Inr (p, t')"
    by (auto simp: findRandomFloor_def split: sum.splits)
  from findRandomFloor_loop_bound [OF _ this] show ?thesis by auto
qed

lemma place_enemy_loop_bound:
  "tries \<le> 8000 \<Longrightarrow> place_enemy_loop g pp tries t = Inr (en, t') \<Longrightarrow>
   \<exists>j n. tries + j \<le> 8000 \<and> n \<le> 20000 * j \<and> t' = rng_skip n t \<and> (en = None \<longrightarrow> tries + j = 8000)"
proof (induction g pp tries t rule: place_enemy_loop.induct)
  case (1 g pp tries t)
  show ?case
  proof (cases "tries < 8000")
    case False
    with "1.prems" have "tries = 8000" by simp
    from "1.prems"(2) False have "t' = t"
      by (subst (asm) place_enemy_loop.simps) simp
    with \<open>tries = 8000\<close> show ?thesis
      by (intro exI [of _ 0]) (simp add: rng_skip_def)
  next
    case True
    have unf: "place_enemy_loop g pp tries t =
        (case findRandomFloor g t of
           Inl e \<Rightarrow> Inl e
         | Inr (cand, t1) \<Rightarrow>
             if dist_xy (cell_centre cand) pp < 6 \<or> dist_xy (cell_centre cand) pp > 10
             then place_enemy_loop g pp (Suc tries) t1 else Inr (Some cand, t1))"
      by (subst place_enemy_loop.simps) (simp add: True Let_def cong: sum.case_cong split: prod.splits)
    from "1.prems"(2) obtain cand t1 where f: "findRandomFloor g t = Inr (cand, t1)"
      and res: "(if dist_xy (cell_centre cand) pp < 6 \<or> dist_xy (cell_centre cand) pp > 10
                 then place_enemy_loop g pp (Suc tries) t1 else Inr (Some cand, t1)) = Inr (en, t')"
      unfolding unf by (auto split: sum.splits)
    from findRandomFloor_bound [OF f] obtain k where k: "k \<le> 10000" "t1 = rng_skip (2 * k) t" by blast
    show ?thesis
    proof (cases "dist_xy (cell_centre cand) pp < 6 \<or> dist_xy (cell_centre cand) pp > 10")
      case False
      with res have "en = Some cand" "t' = t1" by simp_all
      with k True show ?thesis
        by (intro exI [of _ 1] exI [of _ "2 * k"]) simp
    next
      case out: True
      with res have rec: "place_enemy_loop g pp (Suc tries) t1 = Inr (en, t')" by simp
      from True have le: "Suc tries \<le> 8000" by simp
      from "1.IH" [OF True f refl refl out le rec]
      obtain j n where j: "Suc tries + j \<le> 8000" "n \<le> 20000 * j" "t' = rng_skip n t1"
        "en = None \<longrightarrow> Suc tries + j = 8000"
        by blast
      have "t' = rng_skip (2 * k + n) t" using j(3) k(2) by (simp add: rng_skip_add)
      moreover have "2 * k + n \<le> 20000 * Suc j" using k(1) j(2) by simp
      ultimately show ?thesis using j(1,4)
        by (intro exI [of _ "Suc j"] exI [of _ "2 * k + n"]) simp
    qed
  qed
qed

lemma row0_length_dims: "dims w h g \<Longrightarrow> 0 < h \<Longrightarrow> row0_length g = Inr w"
  by (cases g) (auto simp: dims_def row0_length_def)

lemma findRandomFloor_loop_range:
  "dims w h g \<Longrightarrow> 3 \<le> w \<Longrightarrow> 3 \<le> h \<Longrightarrow>
   \<exists>p t'. findRandomFloor_loop g w h tries t = Inr (p, t')
           \<and> 1 \<le> fst p \<and> fst p \<le> w - 2 \<and> 1 \<le> snd p \<and> snd p \<le> h - 2"
proof (induction g w h tries t rule: findRandomFloor_loop.induct)
  case (1 g w h tries t)
  note d = "1.prems"(1) and w = "1.prems"(2) and h = "1.prems"(3)
  show ?case
  proof (cases "tries < 10000")
    case False
    then have "findRandomFloor_loop g w h tries t = Inr ((1, 1), t)"
      by (subst findRandomFloor_loop.simps) simp
    with w h show ?thesis by simp
  next
    case True
    obtain t1 u1 where r1: "rng_next t = (t1, u1)" by (cases "rng_next t")
    obtain t2 u2 where r2: "rng_next t1 = (t2, u2)" by (cases "rng_next t1")
    define x where "x = 1 + rand_below u1 (w - 2)"
    define y where "y = 1 + rand_below u2 (h - 2)"
    from w rand_below_range [of "w - 2" u1] have xr: "1 \<le> x" "x \<le> w - 2" by (simp_all add: x_def)
    from h rand_below_range [of "h - 2" u2] have yr: "1 \<le> y" "y \<le> h - 2" by (simp_all add: y_def)
    from yr have y0: "0 \<le> y" "y < h" by simp_all
    obtain c where c: "cell_at g y x = Inr c" using cell_at_dims [OF d y0] by blast
    have unf: "findRandomFloor_loop g w h tries t =
        (if c = Some 0 then Inr ((x, y), t2) else findRandomFloor_loop g w h (Suc tries) t2)"
      using c unfolding x_def y_def
      by (subst findRandomFloor_loop.simps) (simp add: True r1 r2 Let_def)
    show ?thesis
    proof (cases "c = Some 0")
      case found: True
      with unf xr yr show ?thesis by simp
    next
      case False
      from "1.IH" [OF True r1 [symmetric] r2 [symmetric] x_def y_def c False d w h]
      show ?thesis using unf False by simp
    qed
  qed
qed

lemma findRandomFloor_range:
  assumes "dims w h g" "3 \<le> w" "3 \<le> h"
  shows "\<exists>p t'. findRandomFloor g t = Inr (p, t')
           \<and> 1 \<le> fst p \<and> fst p \<le> w - 2 \<and> 1 \<le> snd p \<and> snd p \<le> h - 2"
proof -
  from assms(3) have "0 < h" by simp
  with assms(1) have "row0_length g = Inr w" by (rule row0_length_dims)
  moreover from assms have "int (length g) = h" by (simp add: dims_def)
  ultimately have "findRandomFloor g t = findRandomFloor_loop g w h 0 t"
    by (simp add: findRandomFloor_def)
  with findRandomFloor_loop_range [OF assms, of 0 t] show ?thesis by simp
qed

lemma hypot_small: "\<bar>a\<bar> \<le> 2 \<Longrightarrow> \<bar>b\<bar> \<le> 2 \<Longrightarrow> hypot a b < 8"
proof -
  assume a: "\<bar>a\<bar> \<le> 2" and b: "\<bar>b\<bar> \<le> 2"
  have "a * a \<le> 2 * 2" using a by (intro abs_le_square_iff [THEN iffD1, unfolded power2_eq_square]) simp
  moreover have "b * b \<le> 2 * 2" using b by (intro abs_le_square_iff [THEN iffD1, unfolded power2_eq_square]) simp
  ultimately have "a * a + b * b < 8 * 8" by simp
  then have "sqrt (a * a + b * b) < sqrt (8 * 8)" by (simp only: real_sqrt_less_iff)
  then show ?thesis by (simp add: hypot_def)
qed

lemma hypot_ge: "0 \<le> c \<Longrightarrow> c * c \<le> a * a + b * b \<Longrightarrow> c \<le> hypot a b"
  unfolding hypot_def by (rule real_le_rsqrt) (simp add: power2_eq_square)

lemma hypot_le: "0 \<le> c \<Longrightarrow> a * a + b * b \<le> c * c \<Longrightarrow> hypot a b \<le> c"
  unfolding hypot_def by (rule real_le_lsqrt) (simp_all add: power2_eq_square)

lemma place_keys_accept:
  assumes "length (keyPos s) < 3" "findRandomFloor (grid s) (R s) = Inr (k, t)"
    and "8 \<le> dist_xy (cell_centre k) (player_pos s)" "k \<notin> set (keyPos s)"
  shows "place_keys s = place_keys (s\<lparr>R := t, keyPos := keyPos s @ [k]\<rparr>)"
  using assms by (subst place_keys.simps) (simp add: same_cell_iff)

lemma place_keys_full: "3 \<le> length (keyPos s) \<Longrightarrow> place_keys s = Some (Inr s)"
  by (subst place_keys.simps) simp

lemma place_exit_accept:
  assumes "findRandomFloor (grid s) (R s) = Inr (e, t)"
    and "10 \<le> dist_xy (cell_centre e) (player_pos s)" "e \<notin> set (keyPos s)"
  shows "place_exit s = Some (Inr (s\<lparr>R := t, exitPos := Some e\<rparr>))"
  using assms by (subst place_exit.simps) (simp add: same_cell_iff)

lemma place_enemy_loop_accept:
  assumes "tries < 8000" "findRandomFloor g t = Inr (c, t')"
    and "6 \<le> dist_xy (cell_centre c) pp" "dist_xy (cell_centre c) pp \<le> 10"
  shows "place_enemy_loop g pp tries t = Inr (Some c, t')"
  using assms by (subst place_enemy_loop.simps) (simp add: Let_def)

lemma place_entities_first_tries:
  assumes p: "findRandomFloor (grid s) (R s) = Inr (p, t1)" and a: "rng_next t1 = (t2, ua)"
    and k1: "findRandomFloor (grid s) t2 = Inr (k1, t3)"
    and k2: "findRandomFloor (grid s) t3 = Inr (k2, t4)"
    and k3: "findRandomFloor (grid s) t4 = Inr (k3, t5)"
    and e: "findRandomFloor (grid s) t5 = Inr (e, t6)"
    and c: "findRandomFloor (grid s) t6 = Inr (c, t7)" and b: "rng_next t7 = (t8, ub)"
    and far: "8 \<le> dist_xy (cell_centre k1) (cell_centre p)"
      "8 \<le> dist_xy (cell_centre k2) (cell_centre p)"
      "8 \<le> dist_xy (cell_centre k3) (cell_centre p)"
    and dk: "distinct [k1, k2, k3]"
    and fe: "10 \<le> dist_xy (cell_centre e) (cell_centre p)" "e \<notin> set [k1, k2, k3]"
    and band: "6 \<le> dist_xy (cell_centre c) (cell_centre p)"
      "dist_xy (cell_centre c) (cell_centre p) \<le> 10"
  shows "place_entities s = Some (Inr (s\<lparr>R := t8,
      player := (player s)\<lparr>xpos := of_int (fst p) + 0.5, ypos := of_int (snd p) + 0.5,
                           angle := R_value ua * pi * 2\<rparr>,
      keys := 0, keyPos := [k1, k2, k3], exitPos := Some e,
      enemy := (enemy s)\<lparr>xpos := of_int (fst c) + 0.5, ypos := of_int (snd c) + 0.5,
                         state := ''wander'', angle := R_value ub * pi * 2, lastSeen := 0\<rparr>\<rparr>))"
proof -
  define pl where "pl = (player s)\<lparr>xpos := of_int (fst p) + 0.5, ypos := of_int (snd p) + 0.5,
                                   angle := R_value ua * pi * 2\<rparr>"
  let ?s = "\<lambda>t ks. s\<lparr>R := t, player := pl, keys := 0, keyPos := ks\<rparr>"
  have pp: "player_pos (?s t ks) = cell_centre p" for t ks
    by (simp add: player_pos_def pl_def cell_centre_def)
  have upd: "(?s t ks)\<lparr>R := t', keyPos := ks'\<rparr> = ?s t' ks'" for t ks t' ks'
    by simp
  have s1: "place_player s = Inr (s\<lparr>R := t2, player := pl\<rparr>)"
    by (simp add: place_player_def p a pl_def)
  have "place_keys (?s t2 []) = place_keys ((?s t2 [])\<lparr>R := t3, keyPos := keyPos (?s t2 []) @ [k1]\<rparr>)"
    by (rule place_keys_accept) (simp_all add: pp far k1)
  also have "\<dots> = place_keys (?s t3 [k1])"
    by (simp only: upd) simp
  also have "\<dots> = place_keys ((?s t3 [k1])\<lparr>R := t4, keyPos := keyPos (?s t3 [k1]) @ [k2]\<rparr>)"
    using dk by (intro place_keys_accept) (auto simp: pp far k2)
  also have "\<dots> = place_keys (?s t4 [k1, k2])"
    by (simp only: upd) simp
  also have "\<dots> = place_keys ((?s t4 [k1, k2])\<lparr>R := t5, keyPos := keyPos (?s t4 [k1, k2]) @ [k3]\<rparr>)"
    using dk by (intro place_keys_accept) (auto simp: pp far k3)
  also have "\<dots> = place_keys (?s t5 [k1, k2, k3])"
    by (simp only: upd) simp
  also have "\<dots> = Some (Inr (?s t5 [k1, k2, k3]))"
    by (rule place_keys_full) simp
  finally have s2: "place_keys (?s t2 []) = Some (Inr (?s t5 [k1, k2, k3]))" .
  have "place_exit (?s t5 [k1, k2, k3]) = Some (Inr ((?s t5 [k1, k2, k3])\<lparr>R := t6, exitPos := Some e\<rparr>))"
    using fe by (intro place_exit_accept) (simp_all add: pp e)
  then have s3: "place_exit (?s t5 [k1, k2, k3])
      = Some (Inr (s\<lparr>R := t6, player := pl, keys := 0, keyPos := [k1, k2, k3], exitPos := Some e\<rparr>))"
    by simp
  let ?s3 = "s\<lparr>R := t6, player := pl, keys := 0, keyPos := [k1, k2, k3], exitPos := Some e\<rparr>"
  have pp3: "player_pos ?s3 = cell_centre p"
    by (simp add: player_pos_def pl_def cell_centre_def)
  have l: "place_enemy_loop (grid s) (cell_centre p) 0 t6 = Inr (Some c, t7)"
    by (rule place_enemy_loop_accept [OF _ c band]) simp
  have s4: "place_enemy ?s3 = Inr (s\<lparr>R := t8, player := pl, keys := 0, keyPos := [k1, k2, k3],
      exitPos := Some e,
      enemy := (enemy s)\<lparr>xpos := of_int (fst c) + 0.5, ypos := of_int (snd c) + 0.5,
                         state := ''wander'', angle := R_value ub * pi * 2, lastSeen := 0\<rparr>\<rparr>)"
    unfolding place_enemy_def pp3 by (simp add: l b)
  show ?thesis
    unfolding place_entities_def pl_def [symmetric]
    by (simp add: s1 s2 s3 s4)
qed

text \<open>
  With width 3 the carve loop has one way to go: from (1, 1) down the column \<open>x = 1\<close>,
  one candidate at a time, and the loop pass finds no wall inside. \<open>makeMaze 3 h\<close> returns
  that corridor for every odd \<open>h \<ge> 3\<close> and every seed.
\<close>

lemma new_grid_cell:
  "0 \<le> y \<Longrightarrow> y < h \<Longrightarrow> 0 \<le> x \<Longrightarrow> x < w \<Longrightarrow> cell_at (new_grid w h) y x = Inr (Some 1)"
  by (simp add: cell_at_def new_grid_def Let_def)

lemma rand_below_one: "rand_below u 1 = 0"
  using rand_below_range [of 1 u] by simp

lemma corr_cell:
  "corr h n g \<Longrightarrow> 0 \<le> y \<Longrightarrow> y < h \<Longrightarrow> 0 \<le> x \<Longrightarrow> x < 3 \<Longrightarrow>
   cell_at g y x = Inr (Some (if x = 1 \<and> 1 \<le> y \<and> y \<le> n then 0 else 1))"
  by (simp add: corr_def)

lemma corr_cands_step:
  assumes c: "corr h n g" and n: "1 \<le> n" "n + 2 \<le> h - 2"
  shows "candidates_of 3 h g (1, n) dirs = Inr [(1, n + 2, 1, n + 1)]"
proof -
  have down: "cell_at g (n + 2) 1 = Inr (Some 1)"
    using corr_cell [OF c, of "n + 2" 1] n by simp
  show ?thesis
  proof (cases "n - 2 \<le> 0")
    case True
    with n show ?thesis by (simp add: dirs_def Let_def down)
  next
    case False
    then have "cell_at g (n - 2) 1 = Inr (Some 0)"
      using corr_cell [OF c, of "n - 2" 1] n by simp
    with False n show ?thesis by (simp add: dirs_def Let_def down)
  qed
qed

lemma corr_cands_full:
  assumes c: "corr h (h - 2) g" and m: "1 \<le> m" "m \<le> h - 2"
  shows "candidates_of 3 h g (1, m) dirs = Inr []"
proof -
  have up: "cell_at g (m - 2) 1 = Inr (Some 0)" if "\<not> m - 2 \<le> 0"
    using corr_cell [OF c, of "m - 2" 1] m that by simp
  have down: "cell_at g (m + 2) 1 = Inr (Some 0)" if "\<not> m + 2 \<ge> h - 1"
    using corr_cell [OF c, of "m + 2" 1] m that by simp
  show ?thesis
  proof (cases "m - 2 \<le> 0")
    case u: True
    show ?thesis
    proof (cases "m + 2 \<ge> h - 1")
      case True
      with u m show ?thesis by (simp add: dirs_def Let_def)
    next
      case False
      with u m down show ?thesis by (simp add: dirs_def Let_def)
    qed
  next
    case u: False
    show ?thesis
    proof (cases "m + 2 \<ge> h - 1")
      case True
      with u m up show ?thesis by (simp add: dirs_def Let_def)
    next
      case False
      with u m up down show ?thesis by (simp add: dirs_def Let_def)
    qed
  qed
qed

lemma corr_carve_pick:
  assumes c: "corr h n g" and n: "1 \<le> n" "n + 2 \<le> h - 2"
  shows "\<exists>t' g'. carve_pick 3 h t g (1, n) = Inr (Some (t', g', (1, n + 2))) \<and> corr h (n + 2) g'"
proof -
  from c have d: "dims 3 h g" by (simp add: corr_def)
  obtain t' u where r: "rng_next t = (t', u)" by (cases "rng_next t")
  from set_cell_dims [OF d, of "n + 1" 1 0] n
  obtain g1 where g1: "set_cell g (n + 1) 1 0 = Inr g1" and d1: "dims 3 h g1"
    and c1: "\<And>y' x'. cell_at g1 y' x' = (if y' = n + 1 \<and> x' = 1 then Inr (Some 0) else cell_at g y' x')"
    by auto
  from set_cell_dims [OF d1, of "n + 2" 1 0] n
  obtain g2 where g2: "set_cell g1 (n + 2) 1 0 = Inr g2" and d2: "dims 3 h g2"
    and c2: "\<And>y' x'. cell_at g2 y' x' = (if y' = n + 2 \<and> x' = 1 then Inr (Some 0) else cell_at g1 y' x')"
    by auto
  have "carve_pick 3 h t g (1, n) = Inr (Some (t', g2, (1, n + 2)))"
    by (simp add: carve_pick_def corr_cands_step [OF c n] r rand_below_one nth_opt_def g1 g2)
  moreover have "corr h (n + 2) g2"
    unfolding corr_def using d2 n by (auto simp: c2 c1 corr_cell [OF c])
  ultimately show ?thesis by blast
qed

lemma corr_carve:
  "corr h (h - 2 - 2 * int k) g \<Longrightarrow> 1 \<le> h - 2 - 2 * int k \<Longrightarrow>
   \<exists>t' g'. carve 3 h t g ((1, h - 2 - 2 * int k) # rest) = carve 3 h t' g' rest \<and> corr h (h - 2) g'"
proof (induction k arbitrary: g t rest)
  case 0
  then have c: "corr h (h - 2) g" and m: "1 \<le> h - 2" by simp_all
  have "carve_pick 3 h t g (1, h - 2) = Inr None"
    by (simp add: carve_pick_def corr_cands_full [OF c m])
  then have "carve 3 h t g ((1, h - 2) # rest) = carve 3 h t g rest"
    by (subst carve.simps(2)) (simp del: carve.simps)
  with c show ?case by (auto simp del: carve.simps)
next
  case (Suc k)
  let ?n = "h - 2 - 2 * int (Suc k)"
  have n2: "?n + 2 = h - 2 - 2 * int k" by simp
  from Suc.prems have c: "corr h ?n g" and n: "1 \<le> ?n" "?n + 2 \<le> h - 2" by simp_all
  from corr_carve_pick [OF c n, of t] obtain t1 g1
    where p: "carve_pick 3 h t g (1, ?n) = Inr (Some (t1, g1, (1, ?n + 2)))"
      and c1: "corr h (?n + 2) g1"
    by blast
  from c1 n have c1': "corr h (h - 2 - 2 * int k) g1" and n1: "1 \<le> h - 2 - 2 * int k"
    by (simp_all only: n2) simp
  from Suc.IH [OF c1' n1, of t1 "(1, ?n) # rest"] obtain t2 g2
    where s2: "carve 3 h t1 g1 ((1, h - 2 - 2 * int k) # (1, ?n) # rest) = carve 3 h t2 g2 ((1, ?n) # rest)"
      and c2: "corr h (h - 2) g2"
    by blast
  from n have m: "1 \<le> ?n" "?n \<le> h - 2" by simp_all
  have "carve_pick 3 h t2 g2 (1, ?n) = Inr None"
    by (simp only: carve_pick_def corr_cands_full [OF c2 m]) simp
  then have s3: "carve 3 h t2 g2 ((1, ?n) # rest) = carve 3 h t2 g2 rest"
    by (subst carve.simps(2)) (simp del: carve.simps)
  have "carve 3 h t g ((1, ?n) # rest) = carve 3 h t1 g1 ((1, ?n + 2) # (1, ?n) # rest)"
    by (subst carve.simps(2)) (simp only: p sum.case option.case prod.case)
  also have "\<dots> = carve 3 h t2 g2 rest" unfolding n2 s2 s3 ..
  finally show ?case using c2 by blast
qed

lemma corr_loop_pass:
  assumes c: "corr h (h - 2) g" and h: "3 \<le> h"
  shows "\<exists>t'. loop_pass n 3 h t g = Inr (g, t')"
proof (induction n arbitrary: t)
  case 0
  show ?case by simp
next
  case (Suc n)
  obtain t1 u1 where r1: "rng_next t = (t1, u1)" by (cases "rng_next t")
  obtain t2 u2 where r2: "rng_next t1 = (t2, u2)" by (cases "rng_next t1")
  define y where "y = 1 + rand_below u2 (h - 2)"
  from h rand_below_range [of "h - 2" u2] have yr: "1 \<le> y" "y \<le> h - 2" by (simp_all add: y_def)
  from corr_cell [OF c, of y 1] yr have "cell_at g y 1 = Inr (Some 0)" by simp
  then have "loop_pass (Suc n) 3 h t g = loop_pass n 3 h t2 g"
    by (simp add: r1 r2 rand_below_one y_def [symmetric] Let_def)
  with Suc.IH [of t2] show ?case by simp
qed

lemma makeMaze_corridor:
  assumes h: "3 \<le> h" "odd h"
  shows "\<exists>g. makeMaze 3 h sd = Inr (g, sd) \<and> corr h (h - 2) g"
proof -
  from h obtain k where k: "h = 2 * int k + 3"
  proof -
    from h obtain j where "h = 2 * j + 1" by (auto elim: oddE)
    with h have "h = 2 * int (nat (j - 1)) + 3" by simp
    then show ?thesis by (rule that)
  qed
  from h have d0: "dims 3 h (new_grid 3 h)" by (simp add: new_grid_dims)
  from set_cell_dims [OF d0, of 1 1 0] h
  obtain g1 where g1: "set_cell (new_grid 3 h) 1 1 0 = Inr g1" and d1: "dims 3 h g1"
    and c1: "\<And>y' x'. cell_at g1 y' x' = (if y' = 1 \<and> x' = 1 then Inr (Some 0) else cell_at (new_grid 3 h) y' x')"
    by auto
  have "corr h 1 g1" unfolding corr_def using d1 by (auto simp: c1 new_grid_cell)
  then have a: "corr h (h - 2 - 2 * int k) g1" and b: "1 \<le> h - 2 - 2 * int k"
    by (simp_all add: k)
  from corr_carve [OF a b, of "rng_seed sd" "[]"] obtain t2 g2
    where e: "carve 3 h (rng_seed sd) g1 [(1, h - 2 - 2 * int k)] = carve 3 h t2 g2 []"
      and c2: "corr h (h - 2) g2"
    by blast
  have one: "h - 2 - 2 * int k = 1" by (simp add: k)
  have g2: "carve 3 h (rng_seed sd) g1 [(1, 1)] = Inr (g2, t2)"
    using e unfolding one by (simp only: carve.simps(1))
  from corr_loop_pass [OF c2 h(1), of "loop_count 3 h" t2] obtain t3
    where g3: "loop_pass (loop_count 3 h) 3 h t2 g2 = Inr (g2, t3)" by blast
  have "makeMaze 3 h sd = Inr (g2, sd)"
    by (simp add: makeMaze_def g1 g2 g3 del: carve.simps)
  with c2 show ?thesis by blast
qed

lemma findRandomFloor_corr:
  assumes c: "corr h (h - 2) g" and h: "3 \<le> h"
    and r: "rng_next t = (t1, u1)" "rng_next t1 = (t2, u2)"
  shows "findRandomFloor g t = Inr ((1, 1 + rand_below u2 (h - 2)), t2)"
proof -
  from c have d: "dims 3 h g" by (simp add: corr_def)
  from h have "0 < h" by simp
  with d have l: "row0_length g = Inr 3" by (rule row0_length_dims)
  from d have n: "int (length g) = h" by (simp add: dims_def)
  from h rand_below_range [of "h - 2" u2]
  have "cell_at g (1 + rand_below u2 (h - 2)) 1 = Inr (Some 0)"
    using corr_cell [OF c, of "1 + rand_below u2 (h - 2)" 1] by simp
  then show ?thesis unfolding findRandomFloor_def l n
    by (subst findRandomFloor_loop.simps) (simp add: r Let_def rand_below_one)
qed

lemma rng_corridor:
  "rng_next 59 = (1831565872, 1697978745)"
  "rng_next 1831565872 = (3663131685, 2636215775)"
  "rng_next 3663131685 = (5494697498, 1148476867)"
  "rng_next 5494697498 = (7326263311, 678600815)"
  "rng_next 7326263311 = (9157829124, 581887376)"
  "rng_next 9157829124 = (10989394937, 2736247033)"
  "rng_next 10989394937 = (12820960750, 1157486568)"
  "rng_next 12820960750 = (14652526563, 1406945410)"
  "rng_next 14652526563 = (16484092376, 4153063821)"
  "rng_next 16484092376 = (18315658189, 108152640)"
  "rng_next 18315658189 = (20147224002, 823825762)"
  "rng_next 20147224002 = (21978789815, 3114248597)"
  "rng_next 21978789815 = (23810355628, 1319475927)"
  "rng_next 23810355628 = (25641921441, 2505133402)"
  by (simp_all add: rng_next_def fl_def Let_def)

lemma rand_corridor:
  "rand_below 2636215775 29 = 17"
  "rand_below 581887376 29 = 3"
  "rand_below 1157486568 29 = 7"
  "rand_below 4153063821 29 = 28"
  "rand_below 823825762 29 = 5"
  "rand_below 1319475927 29 = 8"
  by (simp_all add: rand_below_def fl_int_def fl_def)

lemma corridor_game_fields: "mapW corridor_game = 3" "mapH corridor_game = 31"
  by (simp_all add: corridor_game_def demo_game_def)

lemma startNew_corridor:
  "\<exists>s'. startNew corridor_game 59 0 = Some (Inr s') \<and> player_pos s' = cell_centre (1, 18)
     \<and> keyPos s' = [(1, 4), (1, 8), (1, 29)] \<and> exitPos s' = Some (1, 6)
     \<and> xpos (enemy s') = 3 / 2 \<and> ypos (enemy s') = 19 / 2"
proof -
  from makeMaze_corridor [of 31 59] obtain g
    where mk: "makeMaze 3 31 59 = Inr (g, 59)" and c: "corr 31 (31 - 2) g" by auto
  define s0 where "s0 = corridor_game\<lparr>running := True, paused := False, grid := g, seed := 59, R := 59\<rparr>"
  have f: "grid s0 = g" "R s0 = 59" by (simp_all add: s0_def)
  have far: "8 \<le> dist_xy (cell_centre (1, 4)) (cell_centre (1, 18))"
    "8 \<le> dist_xy (cell_centre (1, 8)) (cell_centre (1, 18))"
    "8 \<le> dist_xy (cell_centre (1, 29)) (cell_centre (1, 18))"
    "10 \<le> dist_xy (cell_centre (1, 6)) (cell_centre (1, 18))"
    "6 \<le> dist_xy (cell_centre (1, 9)) (cell_centre (1, 18))"
    unfolding dist_xy_def cell_centre_def by (rule hypot_ge; simp)+
  have near: "dist_xy (cell_centre (1, 9)) (cell_centre (1, 18)) \<le> 10"
    unfolding dist_xy_def cell_centre_def by (rule hypot_le) simp_all
  have smp:
    "findRandomFloor (grid s0) (R s0) = Inr ((1, 18), 3663131685)"
    "findRandomFloor (grid s0) 5494697498 = Inr ((1, 4), 9157829124)"
    "findRandomFloor (grid s0) 9157829124 = Inr ((1, 8), 12820960750)"
    "findRandomFloor (grid s0) 12820960750 = Inr ((1, 29), 16484092376)"
    "findRandomFloor (grid s0) 16484092376 = Inr ((1, 6), 20147224002)"
    "findRandomFloor (grid s0) 20147224002 = Inr ((1, 9), 23810355628)"
    unfolding f
    using findRandomFloor_corr [OF c _ rng_corridor(1) rng_corridor(2)]
      findRandomFloor_corr [OF c _ rng_corridor(4) rng_corridor(5)]
      findRandomFloor_corr [OF c _ rng_corridor(6) rng_corridor(7)]
      findRandomFloor_corr [OF c _ rng_corridor(8) rng_corridor(9)]
      findRandomFloor_corr [OF c _ rng_corridor(10) rng_corridor(11)]
      findRandomFloor_corr [OF c _ rng_corridor(12) rng_corridor(13)]
    by (simp_all add: rand_corridor)
  have dk: "distinct [(1 :: int, 4 :: int), (1, 8), (1, 29)]"
    and ek: "(1 :: int, 6 :: int) \<notin> set [(1, 4), (1, 8), (1, 29)]" by simp_all
  note pe = place_entities_first_tries [OF smp(1) rng_corridor(3) smp(2) smp(3) smp(4) smp(5)
      smp(6) rng_corridor(14) far(1) far(2) far(3) dk far(4) ek far(5) near]
  have sd: "rng_seed 59 = 59" by (simp add: rng_seed_def)
  show ?thesis
    unfolding startNew_def Let_def
    by (simp add: corridor_game_fields mk sd s0_def [symmetric] pe player_pos_def cell_centre_def
        del: String_nat.simps)
qed

text \<open>
  C5. Whenever \<open>startNew\<close> returns a session, it has 3 key cells, pairwise distinct, the
  centre of each at distance at least 8 from the player's spawn position, and an exit cell
  that is no key cell, its centre at distance at least 10 from the spawn position.
\<close>

theorem startNew_placement_distances:
  assumes "startNew s clock pnow = Some (Inr s')"
  shows "length (keyPos s') = 3 \<and> distinct (keyPos s')
     \<and> (\<forall>k \<in> set (keyPos s'). 8 \<le> dist_xy (cell_centre k) (player_pos s'))
     \<and> (\<exists>e. exitPos s' = Some e \<and> 10 \<le> dist_xy (cell_centre e) (player_pos s')
           \<and> e \<notin> set (keyPos s'))"
proof -
  from placement_far [of s s' s clock pnow] assms
  have "length (keyPos s') = 3" "far_keys s'" "far_exit s'" by simp_all
  then show ?thesis
    by (auto simp: far_keys_def far_exit_def list_all_iff split: option.splits)
qed

text \<open>
  A session that \<open>startNew\<close> returns: width 3, height 31, clock 59. The player spawns on
  cell (1, 18), the keys lie on (1, 4), (1, 8), (1, 29) and the exit on (1, 6).
\<close>

theorem startNew_placement_distances_witness:
  "\<exists>s'. startNew corridor_game 59 0 = Some (Inr s')
     \<and> player_pos s' = cell_centre (1, 18)
     \<and> keyPos s' = [(1, 4), (1, 8), (1, 29)] \<and> exitPos s' = Some (1, 6)
     \<and> distinct (keyPos s')
     \<and> 8 \<le> dist_xy (cell_centre (1, 4)) (player_pos s')
     \<and> 8 \<le> dist_xy (cell_centre (1, 8)) (player_pos s')
     \<and> 8 \<le> dist_xy (cell_centre (1, 29)) (player_pos s')
     \<and> 10 \<le> dist_xy (cell_centre (1, 6)) (player_pos s')"
proof -
  from startNew_corridor obtain s' where sn: "startNew corridor_game 59 0 = Some (Inr s')"
    and v: "player_pos s' = cell_centre (1, 18)" "keyPos s' = [(1, 4), (1, 8), (1, 29)]"
      "exitPos s' = Some (1, 6)"
    by blast
  from startNew_placement_distances [OF sn] have "distinct (keyPos s')"
    and "\<forall>k \<in> set (keyPos s'). 8 \<le> dist_xy (cell_centre k) (player_pos s')"
    and "\<exists>e. exitPos s' = Some e \<and> 10 \<le> dist_xy (cell_centre e) (player_pos s')"
    by blast+
  with sn v show ?thesis by (intro exI [of _ s']) simp
qed

text \<open>
  A grid on which every sample is accepted at the first try: 15 by 15, walls on the
  border only.
\<close>

lemma arena_dims: "dims 15 15 arena"
proof -
  have "\<forall>r \<in> set arena. length r = 15" by (auto simp: arena_def)
  then have "\<forall>i < length arena. int (length (arena ! i)) = 15" by simp
  moreover have "length arena = 15" by (simp add: arena_def)
  ultimately show ?thesis by (simp add: dims_def)
qed

lemma arena_cell:
  assumes "1 \<le> x" "x \<le> 13" "1 \<le> y" "y \<le> 13"
  shows "cell_at arena y x = Inr (Some 0)"
proof -
  have l: "length arena = 15" by (simp add: arena_def)
  from assms have ny: "0 < nat y" "nat y - 1 < 13" and nx: "0 < nat x" "nat x - 1 < 13" by simp_all
  from ny have r: "arena ! nat y = 1 # replicate 13 0 @ [1]"
    by (simp add: arena_def nth_Cons' nth_append)
  from nx have "(1 # replicate 13 0 @ [1 :: int]) ! nat x = 0"
    by (simp add: nth_Cons' nth_append)
  with assms r l show ?thesis by (simp add: cell_at_def Let_def)
qed

lemma findRandomFloor_arena:
  assumes "rng_next t = (t1, u1)" "rng_next t1 = (t2, u2)"
  shows "findRandomFloor arena t = Inr ((1 + rand_below u1 13, 1 + rand_below u2 13), t2)"
proof -
  have l: "row0_length arena = Inr 15" "int (length arena) = 15"
    by (simp_all add: arena_def row0_length_def)
  from rand_below_range [of 13 u1] rand_below_range [of 13 u2]
  have c: "cell_at arena (1 + rand_below u2 13) (1 + rand_below u1 13) = Inr (Some 0)"
    by (intro arena_cell) simp_all
  show ?thesis unfolding findRandomFloor_def l
    by (subst findRandomFloor_loop.simps) (simp add: assms Let_def c)
qed

lemma rng_arena:
  "rng_next 131 = (1831565944, 828447672)"
  "rng_next 1831565944 = (3663131757, 4214422035)"
  "rng_next 3663131757 = (5494697570, 434877497)"
  "rng_next 5494697570 = (7326263383, 261141304)"
  "rng_next 7326263383 = (9157829196, 1069386313)"
  "rng_next 9157829196 = (10989395009, 3783691700)"
  "rng_next 10989395009 = (12820960822, 237972086)"
  "rng_next 12820960822 = (14652526635, 1660606433)"
  "rng_next 14652526635 = (16484092448, 490117434)"
  "rng_next 16484092448 = (18315658261, 3360536922)"
  "rng_next 18315658261 = (20147224074, 295508920)"
  "rng_next 20147224074 = (21978789887, 2719351334)"
  "rng_next 21978789887 = (23810355700, 3280226683)"
  "rng_next 23810355700 = (25641921513, 1661788315)"
  by (simp_all add: rng_next_def fl_def Let_def)

lemma rand_arena:
  "rand_below 828447672 13 = 2"
  "rand_below 4214422035 13 = 12"
  "rand_below 261141304 13 = 0"
  "rand_below 1069386313 13 = 3"
  "rand_below 3783691700 13 = 11"
  "rand_below 237972086 13 = 0"
  "rand_below 1660606433 13 = 5"
  "rand_below 490117434 13 = 1"
  "rand_below 3360536922 13 = 10"
  "rand_below 295508920 13 = 0"
  "rand_below 2719351334 13 = 8"
  "rand_below 3280226683 13 = 9"
  by (simp_all add: rand_below_def fl_int_def fl_def)

lemma arena_samples:
  "findRandomFloor arena 131 = Inr ((3, 13), 3663131757)"
  "findRandomFloor arena 5494697570 = Inr ((1, 4), 9157829196)"
  "findRandomFloor arena 9157829196 = Inr ((12, 1), 12820960822)"
  "findRandomFloor arena 12820960822 = Inr ((6, 2), 16484092448)"
  "findRandomFloor arena 16484092448 = Inr ((11, 1), 20147224074)"
  "findRandomFloor arena 20147224074 = Inr ((9, 10), 23810355700)"
  by (simp_all add: findRandomFloor_arena [OF rng_arena(1) rng_arena(2)]
      findRandomFloor_arena [OF rng_arena(4) rng_arena(5)]
      findRandomFloor_arena [OF rng_arena(6) rng_arena(7)]
      findRandomFloor_arena [OF rng_arena(8) rng_arena(9)]
      findRandomFloor_arena [OF rng_arena(10) rng_arena(11)]
      findRandomFloor_arena [OF rng_arena(12) rng_arena(13)] rand_arena)

lemma arena_run:
  "place_entities arena_game = Some (Inr (arena_game\<lparr>R := 25641921513,
      player := (player arena_game)\<lparr>xpos := of_int (fst (3 :: int, 13 :: int)) + 0.5,
                                    ypos := of_int (snd (3 :: int, 13 :: int)) + 0.5,
                                    angle := R_value 434877497 * pi * 2\<rparr>,
      keys := 0, keyPos := [(1, 4), (12, 1), (6, 2)], exitPos := Some (11, 1),
      enemy := (enemy arena_game)\<lparr>xpos := of_int (fst (9 :: int, 10 :: int)) + 0.5,
                                  ypos := of_int (snd (9 :: int, 10 :: int)) + 0.5,
                                  state := ''wander'', angle := R_value 1661788315 * pi * 2,
                                  lastSeen := 0\<rparr>\<rparr>))"
proof -
  have f: "grid arena_game = arena" "R arena_game = 131"
    by (simp_all add: arena_game_def)
  have far: "8 \<le> dist_xy (cell_centre (1, 4)) (cell_centre (3, 13))"
    "8 \<le> dist_xy (cell_centre (12, 1)) (cell_centre (3, 13))"
    "8 \<le> dist_xy (cell_centre (6, 2)) (cell_centre (3, 13))"
    "10 \<le> dist_xy (cell_centre (11, 1)) (cell_centre (3, 13))"
    "6 \<le> dist_xy (cell_centre (9, 10)) (cell_centre (3, 13))"
    unfolding dist_xy_def cell_centre_def by (rule hypot_ge; simp)+
  have near: "dist_xy (cell_centre (9, 10)) (cell_centre (3, 13)) \<le> 10"
    unfolding dist_xy_def cell_centre_def by (rule hypot_le) simp_all
  have dk: "distinct [(1 :: int, 4 :: int), (12, 1), (6, 2)]"
    and ek: "(11 :: int, 1 :: int) \<notin> set [(1, 4), (12, 1), (6, 2)]" by simp_all
  note smp = arena_samples [folded f]
  show ?thesis
    by (rule place_entities_first_tries [OF smp(1) rng_arena(3) smp(2) smp(3) smp(4) smp(5)
      smp(6) rng_arena(14) far(1) far(2) far(3) dk far(4) ek far(5) near])
qed

text \<open>
  When every sample of \<open>findRandomFloor\<close> lies at distance below 8 from the player, the
  key loop never ends. That is so on every grid of 5 by 5 cells (all samples and the
  player lie in the 3 by 3 interior) and on every grid without a floor cell (every
  sample is the fallback (1, 1), where the player stands too).
\<close>

lemma place_keys_never_far:
  assumes "place_keys s = Some r"
  shows "\<not> (length (keyPos s) < 3
           \<and> (\<forall>t. \<exists>k t'. findRandomFloor (grid s) t = Inr (k, t')
                  \<and> dist_xy (cell_centre k) (player_pos s) < 8))"
proof (rule place_keys.raw_induct [where P = "\<lambda>s r. \<not> (length (keyPos s) < 3
           \<and> (\<forall>t. \<exists>k t'. findRandomFloor (grid s) t = Inr (k, t')
                  \<and> dist_xy (cell_centre k) (player_pos s) < 8))", OF _ assms])
  fix place_keys' :: "game \<Rightarrow> (js_error + game) option" and s r
  assume IH: "\<And>x y. place_keys' x = Some y \<Longrightarrow> \<not> (length (keyPos x) < 3
           \<and> (\<forall>t. \<exists>k t'. findRandomFloor (grid x) t = Inr (k, t')
                  \<and> dist_xy (cell_centre k) (player_pos x) < 8))"
    and hyps: "(if length (keyPos s) < 3 then
        (case findRandomFloor (grid s) (R s) of
           Inl e \<Rightarrow> Some (Inl e)
         | Inr (k, t) \<Rightarrow>
             if dist_xy (cell_centre k) (player_pos s) < 8 then place_keys' (s\<lparr>R := t\<rparr>)
             else if same_cell k (keyPos s) then place_keys' (s\<lparr>R := t\<rparr>)
             else place_keys' (s\<lparr>R := t, keyPos := keyPos s @ [k]\<rparr>))
      else Some (Inr s)) = Some r"
  show "\<not> (length (keyPos s) < 3
           \<and> (\<forall>t. \<exists>k t'. findRandomFloor (grid s) t = Inr (k, t')
                  \<and> dist_xy (cell_centre k) (player_pos s) < 8))"
  proof
    assume c: "length (keyPos s) < 3
           \<and> (\<forall>t. \<exists>k t'. findRandomFloor (grid s) t = Inr (k, t')
                  \<and> dist_xy (cell_centre k) (player_pos s) < 8)"
    then obtain k t where f: "findRandomFloor (grid s) (R s) = Inr (k, t)"
      and near: "dist_xy (cell_centre k) (player_pos s) < 8"
      by blast
    from hyps c f near have "place_keys' (s\<lparr>R := t\<rparr>) = Some r" by simp
    from IH [OF this] have "\<not> (length (keyPos s) < 3
           \<and> (\<forall>t. \<exists>k t'. findRandomFloor (grid s) t = Inr (k, t')
                  \<and> dist_xy (cell_centre k) (player_pos s) < 8))"
      by (simp add: player_pos_def)
    with c show False by blast
  qed
qed

lemma place_entities_never_far:
  assumes p: "place_player s = Inr s1"
    and near: "\<forall>t. \<exists>k t'. findRandomFloor (grid s1) t = Inr (k, t')
                 \<and> dist_xy (cell_centre k) (player_pos s1) < 8"
  shows "place_entities s = None"
proof -
  let ?s = "s1\<lparr>keys := 0, keyPos := []\<rparr>"
  have "length (keyPos ?s) < 3
      \<and> (\<forall>t. \<exists>k t'. findRandomFloor (grid ?s) t = Inr (k, t')
             \<and> dist_xy (cell_centre k) (player_pos ?s) < 8)"
    using near by (simp add: player_pos_def)
  with place_keys_never_far [of ?s] have "place_keys ?s = None"
    by (cases "place_keys ?s") blast+
  then show ?thesis by (simp add: place_entities_def p)
qed

lemma place_player_total:
  assumes "dims w h (grid s)" "3 \<le> w" "3 \<le> h"
  shows "\<exists>p t t' u. findRandomFloor (grid s) (R s) = Inr (p, t) \<and> rng_next t = (t', u)
           \<and> 1 \<le> fst p \<and> fst p \<le> w - 2 \<and> 1 \<le> snd p \<and> snd p \<le> h - 2
           \<and> place_player s = Inr (s\<lparr>R := t',
                 player := (player s)\<lparr>xpos := of_int (fst p) + 0.5,
                                      ypos := of_int (snd p) + 0.5,
                                      angle := R_value u * pi * 2\<rparr>\<rparr>)"
proof -
  from findRandomFloor_range [OF assms, of "R s"] obtain p t
    where f: "findRandomFloor (grid s) (R s) = Inr (p, t)"
      and pr: "1 \<le> fst p" "fst p \<le> w - 2" "1 \<le> snd p" "snd p \<le> h - 2"
    by auto
  obtain t' u where r: "rng_next t = (t', u)" by (cases "rng_next t")
  from f r pr show ?thesis by (simp add: place_player_def)
qed

lemma place_entities_small:
  assumes d: "dims 5 5 (grid s)"
  shows "place_entities s = None"
proof -
  from place_player_total [OF d] obtain p t t' u
    where pr: "1 \<le> fst p" "fst p \<le> 3" "1 \<le> snd p" "snd p \<le> 3"
      and pl: "place_player s = Inr (s\<lparr>R := t',
                 player := (player s)\<lparr>xpos := of_int (fst p) + 0.5,
                                      ypos := of_int (snd p) + 0.5,
                                      angle := R_value u * pi * 2\<rparr>\<rparr>)"
    by auto
  show ?thesis
  proof (rule place_entities_never_far [OF pl], intro allI)
    fix v
    from findRandomFloor_range [OF d, of v] obtain k v'
      where f: "findRandomFloor (grid s) v = Inr (k, v')"
        and kr: "1 \<le> fst k" "fst k \<le> 3" "1 \<le> snd k" "snd k \<le> 3"
      by auto
    from kr pr have "\<bar>real_of_int (fst k) + 0.5 - (real_of_int (fst p) + 0.5)\<bar> \<le> 2"
      "\<bar>real_of_int (snd k) + 0.5 - (real_of_int (snd p) + 0.5)\<bar> \<le> 2"
      by simp_all
    then have "hypot (real_of_int (fst k) + 0.5 - (real_of_int (fst p) + 0.5))
        (real_of_int (snd k) + 0.5 - (real_of_int (snd p) + 0.5)) < 8"
      by (rule hypot_small)
    with f show "\<exists>k t'a. findRandomFloor (grid (s\<lparr>R := t',
                 player := (player s)\<lparr>xpos := of_int (fst p) + 0.5,
                                      ypos := of_int (snd p) + 0.5,
                                      angle := R_value u * pi * 2\<rparr>\<rparr>)) v = Inr (k, t'a)
        \<and> dist_xy (cell_centre k) (player_pos (s\<lparr>R := t',
                 player := (player s)\<lparr>xpos := of_int (fst p) + 0.5,
                                      ypos := of_int (snd p) + 0.5,
                                      angle := R_value u * pi * 2\<rparr>\<rparr>)) < 8"
      by (simp add: dist_xy_def cell_centre_def player_pos_def)
  qed
qed

lemma place_entities_no_floor:
  assumes d: "dims w h (grid s)" and w: "3 \<le> w" and h: "3 \<le> h"
    and nf: "\<And>p. \<not> is_floor (grid s) p"
  shows "place_entities s = None"
proof -
  have one: "\<exists>v'. findRandomFloor (grid s) v = Inr ((1, 1), v')" for v
  proof -
    from findRandomFloor_range [OF d w h, of v] obtain k v'
      where f: "findRandomFloor (grid s) v = Inr (k, v')" by auto
    from findRandomFloor_bound [OF f] nf have "k = (1, 1)" by blast
    with f show ?thesis by blast
  qed
  from place_player_total [OF d w h] one [of "R s"] obtain t' u
    where pl: "place_player s = Inr (s\<lparr>R := t',
                 player := (player s)\<lparr>xpos := of_int (fst (1 :: int, 1 :: int)) + 0.5,
                                      ypos := of_int (snd (1 :: int, 1 :: int)) + 0.5,
                                      angle := R_value u * pi * 2\<rparr>\<rparr>)"
    by auto
  show ?thesis
  proof (rule place_entities_never_far [OF pl], intro allI)
    fix v
    from one [of v] obtain v' where "findRandomFloor (grid s) v = Inr ((1, 1), v')" by blast
    then show "\<exists>k t'a. findRandomFloor (grid (s\<lparr>R := t',
                 player := (player s)\<lparr>xpos := of_int (fst (1 :: int, 1 :: int)) + 0.5,
                                      ypos := of_int (snd (1 :: int, 1 :: int)) + 0.5,
                                      angle := R_value u * pi * 2\<rparr>\<rparr>)) v = Inr (k, t'a)
        \<and> dist_xy (cell_centre k) (player_pos (s\<lparr>R := t',
                 player := (player s)\<lparr>xpos := of_int (fst (1 :: int, 1 :: int)) + 0.5,
                                      ypos := of_int (snd (1 :: int, 1 :: int)) + 0.5,
                                      angle := R_value u * pi * 2\<rparr>\<rparr>)) < 8"
      by (simp add: dist_xy_def cell_centre_def player_pos_def hypot_def)
  qed
qed

lemma place_enemy_loop_total:
  "dims w h g \<Longrightarrow> 3 \<le> w \<Longrightarrow> 3 \<le> h \<Longrightarrow> \<exists>en t'. place_enemy_loop g pp tries t = Inr (en, t')"
proof (induction g pp tries t rule: place_enemy_loop.induct)
  case (1 g pp tries t)
  show ?case
  proof (cases "tries < 8000")
    case False
    then show ?thesis by (subst place_enemy_loop.simps) simp
  next
    case True
    from findRandomFloor_range [OF "1.prems", of t] obtain cand t1
      where f: "findRandomFloor g t = Inr (cand, t1)" by auto
    have unf: "place_enemy_loop g pp tries t =
        (if dist_xy (cell_centre cand) pp < 6 \<or> dist_xy (cell_centre cand) pp > 10
         then place_enemy_loop g pp (Suc tries) t1 else Inr (Some cand, t1))"
      by (subst place_enemy_loop.simps) (simp add: True f Let_def)
    show ?thesis
    proof (cases "dist_xy (cell_centre cand) pp < 6 \<or> dist_xy (cell_centre cand) pp > 10")
      case False
      with unf show ?thesis by simp
    next
      case out: True
      from "1.IH" [OF True f refl refl out "1.prems"] unf out show ?thesis by simp
    qed
  qed
qed

lemma place_enemy_loop_exhausted:
  "tries \<le> 8000 \<Longrightarrow>
   \<forall>v. \<exists>c v'. findRandomFloor g v = Inr (c, v')
          \<and> (dist_xy (cell_centre c) pp < 6 \<or> dist_xy (cell_centre c) pp > 10) \<Longrightarrow>
   \<exists>t'. place_enemy_loop g pp tries t = Inr (None, t')"
proof (induction g pp tries t rule: place_enemy_loop.induct)
  case (1 g pp tries t)
  show ?case
  proof (cases "tries < 8000")
    case False
    then show ?thesis by (subst place_enemy_loop.simps) simp
  next
    case True
    from "1.prems"(2) obtain cand t1 where f: "findRandomFloor g t = Inr (cand, t1)"
      and out: "dist_xy (cell_centre cand) pp < 6 \<or> dist_xy (cell_centre cand) pp > 10"
      by blast
    have unf: "place_enemy_loop g pp tries t = place_enemy_loop g pp (Suc tries) t1"
      using out by (subst place_enemy_loop.simps) (simp add: True f Let_def)
    from True have le: "Suc tries \<le> 8000" by simp
    from "1.IH" [OF True f refl refl out le "1.prems"(2)] unf show ?thesis by simp
  qed
qed

lemma walled_enemy_loop:
  "\<exists>t'. place_enemy_loop (grid walled_game) (3 / 2, 3 / 2) 0 7 = Inr (None, t')"
proof (rule place_enemy_loop_exhausted, simp, intro allI)
  fix v
  have g: "grid walled_game = new_grid 31 31" by (simp add: walled_game_def)
  have d: "dims 31 31 (grid walled_game)" unfolding g by (simp add: new_grid_dims)
  from findRandomFloor_range [OF d, of v] obtain k v'
    where f: "findRandomFloor (grid walled_game) v = Inr (k, v')" by auto
  from findRandomFloor_bound [OF f] new_grid_no_floor [of 31 31 k] have "k = (1, 1)"
    unfolding g by blast
  with f show "\<exists>c v'. findRandomFloor (grid walled_game) v = Inr (c, v')
      \<and> (dist_xy (cell_centre c) (3 / 2, 3 / 2) < 6 \<or> dist_xy (cell_centre c) (3 / 2, 3 / 2) > 10)"
    by (simp add: dist_xy_def cell_centre_def hypot_def)
qed

text \<open>
  C4, as the code has it. On a grid of at least 3 by 3 cells \<open>findRandomFloor\<close> returns
  after at most 10000 tries (two draws each), with a floor cell or, all tries spent, with
  the cell (1, 1); the enemy loop of \<open>startNew\<close> returns after at most 8000 attempts, with
  no cell only when all are spent (then \<open>findRandomFloor\<close> is called once more); the
  player is placed by one call. The loops for the keys and for the exit have no bound on
  their attempts and no fallback: the placement does not return exactly when one of these
  two loops does not, and on a grid of 5 by 5 cells it never returns.
\<close>

theorem placement_attempt_bounds:
  assumes d: "dims w h (grid s)" and w: "3 \<le> w" and h: "3 \<le> h"
  shows "(\<exists>p t' k. findRandomFloor (grid s) t = Inr (p, t') \<and> k \<le> 10000
            \<and> t' = rng_skip (2 * k) t \<and> (is_floor (grid s) p \<or> (k = 10000 \<and> p = (1, 1))))
     \<and> (\<exists>en t' j n. place_enemy_loop (grid s) pp 0 t = Inr (en, t') \<and> j \<le> 8000
            \<and> n \<le> 20000 * j \<and> t' = rng_skip n t \<and> (en = None \<longrightarrow> j = 8000))
     \<and> (\<exists>s1. place_player s = Inr s1
            \<and> (place_entities s = None \<longleftrightarrow>
                 place_keys (s1\<lparr>keys := 0, keyPos := []\<rparr>) = None
                 \<or> (\<exists>s2. place_keys (s1\<lparr>keys := 0, keyPos := []\<rparr>) = Some (Inr s2)
                        \<and> place_exit s2 = None)))
     \<and> (w = 5 \<and> h = 5 \<longrightarrow> place_entities s = None)"
proof -
  from findRandomFloor_range [OF d w h, of t] obtain p t'
    where f: "findRandomFloor (grid s) t = Inr (p, t')" by auto
  from findRandomFloor_bound [OF f] f
  have a: "\<exists>p t' k. findRandomFloor (grid s) t = Inr (p, t') \<and> k \<le> 10000
            \<and> t' = rng_skip (2 * k) t \<and> (is_floor (grid s) p \<or> (k = 10000 \<and> p = (1, 1)))"
    by blast
  from place_enemy_loop_total [OF d w h, of pp 0 t] obtain en t''
    where l: "place_enemy_loop (grid s) pp 0 t = Inr (en, t'')" by blast
  from place_enemy_loop_bound [OF _ l] l
  have b: "\<exists>en t' j n. place_enemy_loop (grid s) pp 0 t = Inr (en, t') \<and> j \<le> 8000
            \<and> n \<le> 20000 * j \<and> t' = rng_skip n t \<and> (en = None \<longrightarrow> j = 8000)"
    by auto
  from place_player_total [OF d w h] obtain s1 where s1: "place_player s = Inr s1" by blast
  have iff: "place_entities s = None \<longleftrightarrow>
          place_keys (s1\<lparr>keys := 0, keyPos := []\<rparr>) = None
          \<or> (\<exists>s2. place_keys (s1\<lparr>keys := 0, keyPos := []\<rparr>) = Some (Inr s2)
                 \<and> place_exit s2 = None)"
    unfolding place_entities_def s1 by (auto split: option.splits sum.splits)
  have c: "\<exists>s1. place_player s = Inr s1
            \<and> (place_entities s = None \<longleftrightarrow>
                 place_keys (s1\<lparr>keys := 0, keyPos := []\<rparr>) = None
                 \<or> (\<exists>s2. place_keys (s1\<lparr>keys := 0, keyPos := []\<rparr>) = Some (Inr s2)
                        \<and> place_exit s2 = None))"
    by (rule exI [of _ s1]) (rule conjI [OF s1 iff])
  have e: "w = 5 \<and> h = 5 \<longrightarrow> place_entities s = None"
    using d place_entities_small [of s] by blast
  from a b c e show ?thesis by blast
qed

text \<open>
  On the 15 by 15 grid the first sample is the floor cell (3, 13) and the whole placement
  returns; on a grid of walls only the enemy loop spends its 8000 attempts; on a grid of
  5 by 5 cells the placement does not return.
\<close>

theorem placement_attempt_bounds_witness:
  "dims 15 15 (grid arena_game)
   \<and> findRandomFloor (grid arena_game) 131 = Inr ((3, 13), 3663131757)
   \<and> (\<exists>k. k \<le> 10000 \<and> 3663131757 = rng_skip (2 * k) 131)
   \<and> (\<exists>en t' j. place_enemy_loop (grid arena_game) (7 / 2, 27 / 2) 0 131 = Inr (en, t')
          \<and> j \<le> (8000 :: nat) \<and> (en = None \<longrightarrow> j = 8000))
   \<and> place_entities arena_game \<noteq> None
   \<and> (\<exists>t'. place_enemy_loop (grid walled_game) (3 / 2, 3 / 2) 0 7 = Inr (None, t'))
   \<and> dims 5 5 (grid (arena_game\<lparr>grid := new_grid 5 5\<rparr>))
   \<and> place_entities (arena_game\<lparr>grid := new_grid 5 5\<rparr>) = None"
proof -
  have g: "grid arena_game = arena" by (simp add: arena_game_def)
  have d: "dims 15 15 (grid arena_game)" unfolding g by (rule arena_dims)
  have f: "findRandomFloor (grid arena_game) 131 = Inr ((3, 13), 3663131757)"
    unfolding g by (rule arena_samples)
  have three: "(3 :: int) \<le> 15" by simp
  note b = placement_attempt_bounds [OF d three three, of 131 "(7 / 2, 27 / 2)"]
  from b f have k: "\<exists>k. k \<le> 10000 \<and> 3663131757 = rng_skip (2 * k) 131" by auto
  from b have l: "\<exists>en t' j. place_enemy_loop (grid arena_game) (7 / 2, 27 / 2) 0 131 = Inr (en, t')
          \<and> j \<le> (8000 :: nat) \<and> (en = None \<longrightarrow> j = 8000)"
    by blast
  have "place_entities arena_game \<noteq> None" by (simp add: arena_run)
  moreover have d5: "dims 5 5 (grid (arena_game\<lparr>grid := new_grid 5 5\<rparr>))"
    by (simp add: new_grid_dims)
  moreover have "place_entities (arena_game\<lparr>grid := new_grid 5 5\<rparr>) = None"
    using placement_attempt_bounds [OF d5, of 0 "(0, 0)"] by simp
  ultimately show ?thesis using d f k l walled_enemy_loop by blast
qed

text \<open>
  The placement that never returns: \<open>startNew\<close> on a session of 5 by 5 cells, whatever
  maze the clock 1 gives, and the placement phase on a 31 by 31 grid of walls only.
\<close>

theorem startNew_unbounded_counterexample:
  "startNew small_game 1 0 = None \<and> place_entities walled_game = None"
proof
  from makeMaze_connected [of 5 5 1] obtain g where g: "makeMaze 5 5 1 = Inr (g, 1)" and d: "dims 5 5 g"
    by auto
  have m: "mapW small_game = 5" "mapH small_game = 5" by (simp_all add: small_game_def)
  define s1 where "s1 = small_game\<lparr>running := True, paused := False, grid := g, seed := 1, R := rng_seed 1\<rparr>"
  have "dims 5 5 (grid s1)" using d by (simp add: s1_def)
  from place_entities_small [OF this] show "startNew small_game 1 0 = None"
    unfolding startNew_def Let_def by (simp add: m g s1_def)
next
  have g: "grid walled_game = new_grid 31 31" by (simp add: walled_game_def)
  show "place_entities walled_game = None"
    by (rule place_entities_no_floor [of 31 31]) (simp_all add: g new_grid_dims new_grid_no_floor)
qed

end
